theory Spec2Isabelle
  imports Main
begin

section \<open>Faults\<close>

text \<open>
  The source has no error returns of its own.  What can go wrong is what the C++ library
  makes of its calls: using an iterator of \<^verbatim>\<open>std::deque\<close> after the deque has invalidated
  it, calling \<^verbatim>\<open>back()\<close>/\<^verbatim>\<open>pop_back()\<close> on an empty deque (both undefined behaviour), and
  \<^verbatim>\<open>reserve\<close> with a request above \<^verbatim>\<open>max_size()\<close> (throws \<^verbatim>\<open>std::length_error\<close>, which nothing
  in the program catches).  Each is a value of the model.
\<close>

datatype fault = Invalid_iterator | Empty_deque | Length_error

section \<open>The deque and its iterators\<close>

text \<open>
  \<^verbatim>\<open>order_\<close> is a \<^verbatim>\<open>std::deque<K>\<close>, most recently used key first; the model is the list of
  its elements.  \<^verbatim>\<open>slots_\<close> stores, next to every value, a \<^verbatim>\<open>std::deque<K>::iterator\<close>.
  An iterator is modelled by what the language guarantees about it: \<open>Some i\<close> is a valid
  iterator that designates the element at index \<open>i\<close>; \<open>None\<close> is an iterator that a
  later operation on the deque has invalidated.  Dereferencing an invalidated iterator,
  or passing it to \<^verbatim>\<open>erase\<close>, is undefined behaviour.

  The rules are those of the C++ standard for \<^verbatim>\<open>std::deque\<close> (section deque.modifiers):
  \<^item> an insertion at either end of the deque invalidates all the iterators to the deque
    (and leaves the references to its elements valid);
  \<^item> an erase of the last element invalidates only the iterators to the erased element
    (and the past-the-end iterator);
  \<^item> an erase of the first element, when it is not also the last, invalidates only the
    iterators to the erased element; the others keep designating their elements, which
    are now one index lower;
  \<^item> an erase anywhere else invalidates all the iterators.

  \<open>push_front_inval\<close> and \<open>erase_inval n i\<close> say what \<^verbatim>\<open>push_front\<close>, and the erase of the
  element at index \<open>i\<close> of a deque of \<open>n\<close> elements, make of an iterator held elsewhere.
\<close>

type_synonym iter = "nat option"

definition push_front_inval :: "iter \<Rightarrow> iter" where
  "push_front_inval it = None"

definition erase_inval :: "nat \<Rightarrow> nat \<Rightarrow> iter \<Rightarrow> iter" where
  "erase_inval n i it =
     (case it of
        None \<Rightarrow> None
      | Some j \<Rightarrow>
          if j = i then None
          else if Suc i = n then Some j
          else if i = 0 then Some (j - 1)
          else None)"

text \<open>
  The deque does not know where its iterators are kept; the ones this program keeps are
  in \<^verbatim>\<open>slots_\<close>, so every operation on \<^verbatim>\<open>order_\<close> is followed by \<open>retarget\<close> on the slots.
\<close>

definition retarget :: "(iter \<Rightarrow> iter) \<Rightarrow> ('k \<rightharpoonup> 'v \<times> iter) \<Rightarrow> ('k \<rightharpoonup> 'v \<times> iter)" where
  "retarget f m = (\<lambda>k. map_option (\<lambda>(v, it). (v, f it)) (m k))"

section \<open>LruBox\<close>

text \<open>
  The members \<^verbatim>\<open>cap_\<close>, \<^verbatim>\<open>order_\<close> and \<^verbatim>\<open>slots_\<close> are the fields \<open>cap\<close>, \<open>order\<close> and \<open>slots\<close>
  (a name cannot end with an underscore here).  \<^verbatim>\<open>size_t\<close> is 64 bits wide.
\<close>

record ('k, 'v) LruBox =
  cap :: nat
  order :: "'k list"
  slots :: "'k \<rightharpoonup> 'v \<times> iter"

text \<open>
  \<^verbatim>\<open>explicit LruBox(size_t cap) : cap_(cap) {}\<close>.  The parameter is a \<^verbatim>\<open>size_t\<close>; an \<^verbatim>\<open>int\<close>
  argument is converted by the caller, modulo \<open>2^64\<close>.
\<close>

definition size_t_of_int :: "int \<Rightarrow> nat" where
  "size_t_of_int i = nat (i mod 2 ^ 64)"

definition LruBox :: "nat \<Rightarrow> ('k, 'v) LruBox" where
  "LruBox c = \<lparr>cap = c, order = [], slots = Map.empty\<rparr>"

definition LruBox_of_int :: "int \<Rightarrow> fault + ('k, 'v) LruBox" where
  "LruBox_of_int c = Inr (LruBox (size_t_of_int c))"

text \<open>\<^verbatim>\<open>size_t size() const { return slots_.size(); }\<close>\<close>

definition size_box :: "('k, 'v) LruBox \<Rightarrow> nat" where
  "size_box s = card (dom (slots s))"

text \<open>
  \<^verbatim>\<open>slots_[k].second = it\<close>: \<^verbatim>\<open>operator[]\<close> creates a value-initialised entry when the key is
  absent, which is why the value type is of class \<open>default\<close>.
\<close>

instantiation list :: (type) default
begin
definition "default = ([] :: 'a list)"
instance ..
end

definition set_iter :: "('k \<rightharpoonup> 'v::default \<times> iter) \<Rightarrow> 'k \<Rightarrow> iter \<Rightarrow> ('k \<rightharpoonup> 'v \<times> iter)" where
  "set_iter m k it =
     (case m k of
        Some (v, _) \<Rightarrow> m(k \<mapsto> (v, it))
      | None \<Rightarrow> m(k \<mapsto> (default, it)))"

text \<open>
  \<^verbatim>\<open>
  void touch(typename std::deque<K>::iterator it) {
    K key = *it;
    order_.erase(it);
    order_.push_front(std::move(key));
    slots_[order_.front()].second = order_.begin();
  }
  \<close>
\<close>

definition touch :: "('k, 'v::default) LruBox \<Rightarrow> iter \<Rightarrow> fault + ('k, 'v) LruBox" where
  "touch s it =
     (case it of
        None \<Rightarrow> Inl Invalid_iterator
      | Some i \<Rightarrow>
          if length (order s) \<le> i then Inl Invalid_iterator
          else
            let key = order s ! i;
                n = length (order s);
                order1 = take i (order s) @ drop (Suc i) (order s);
                slots1 = retarget (erase_inval n i) (slots s);
                order2 = key # order1;
                slots2 = retarget push_front_inval slots1
            in Inr (s\<lparr>order := order2, slots := set_iter slots2 key (Some 0)\<rparr>))"

text \<open>
  \<^verbatim>\<open>
  std::optional<V> get(const K& key) {
    auto it = slots_.find(key);
    if (it == slots_.end()) return std::nullopt;
    touch(it->second.second);
    return it->second.first;
  }
  \<close>
  \<open>touch\<close> changes no stored value, so the value read after it is the one found before.
\<close>

definition get :: "('k, 'v::default) LruBox \<Rightarrow> 'k \<Rightarrow> fault + ('v option \<times> ('k, 'v) LruBox)" where
  "get s key =
     (case slots s key of
        None \<Rightarrow> Inr (None, s)
      | Some (v, it) \<Rightarrow>
          (case touch s it of
             Inl e \<Rightarrow> Inl e
           | Inr s' \<Rightarrow> Inr (Some v, s')))"

text \<open>
  The eviction block of \<^verbatim>\<open>put\<close>, given below: \<^verbatim>\<open>order_.back()\<close>, \<^verbatim>\<open>slots_.erase(old)\<close>,
  \<^verbatim>\<open>order_.pop_back()\<close>.  \<^verbatim>\<open>back\<close> and \<^verbatim>\<open>pop_back\<close> require a deque that is not empty.
\<close>

definition evict :: "('k, 'v) LruBox \<Rightarrow> fault + ('k, 'v) LruBox" where
  "evict s =
     (if order s = [] then Inl Empty_deque
      else
        let old = last (order s);
            n = length (order s)
        in Inr (s\<lparr>slots := retarget (erase_inval n (n - 1)) ((slots s)(old := None)),
                  order := butlast (order s)\<rparr>))"

text \<open>
  \<^verbatim>\<open>
  void put(const K& key, V value) {
    auto it = slots_.find(key);
    if (it != slots_.end()) {
      it->second.first = std::move(value);
      touch(it->second.second);
      return;
    }
    if (order_.size() >= cap_) {
      const K& old = order_.back();
      slots_.erase(old);
      order_.pop_back();
    }
    order_.push_front(key);
    slots_.emplace(key, std::make_pair(std::move(value), order_.begin()));
  }
  \<close>
\<close>

definition put :: "('k, 'v::default) LruBox \<Rightarrow> 'k \<Rightarrow> 'v \<Rightarrow> fault + ('k, 'v) LruBox" where
  "put s key v =
     (case slots s key of
        Some (v0, it) \<Rightarrow> touch (s\<lparr>slots := (slots s)(key \<mapsto> (v, it))\<rparr>) it
      | None \<Rightarrow>
          (case (if cap s \<le> length (order s) then evict s else Inr s) of
             Inl e \<Rightarrow> Inl e
           | Inr s1 \<Rightarrow>
               Inr (s1\<lparr>order := key # order s1,
                       slots := (retarget push_front_inval (slots s1))(key \<mapsto> (v, Some 0))\<rparr>)))"


section \<open>Sequencing\<close>

text \<open>A fault ends the run: the next operation is applied only to a defined result.\<close>

definition and_then :: "fault + 'a \<Rightarrow> ('a \<Rightarrow> fault + 'b) \<Rightarrow> fault + 'b" where
  "and_then r f = (case r of Inl e \<Rightarrow> Inl e | Inr x \<Rightarrow> f x)"

text \<open>A sequence of \<^verbatim>\<open>put\<close> calls on one cache, first to last.\<close>

fun put_all :: "('k, 'v::default) LruBox \<Rightarrow> ('k \<times> 'v) list \<Rightarrow> fault + ('k, 'v) LruBox" where
  "put_all s [] = Inr s"
| "put_all s ((k, v) # kvs) = and_then (put s k v) (\<lambda>s'. put_all s' kvs)"

text \<open>
  The scenario of the recency test: the keys of all pairs but the last are put into an
  empty cache of capacity \<open>C\<close>, the first key is read with \<^verbatim>\<open>get\<close>, and then the last pair
  is put.  The result is what the \<^verbatim>\<open>get\<close> returned and the final cache.
\<close>

definition reread_first :: "nat \<Rightarrow> ('k \<times> 'v::default) list \<Rightarrow> fault + ('v option \<times> ('k, 'v) LruBox)" where
  "reread_first C kvs =
     and_then (put_all (LruBox C) (butlast kvs)) (\<lambda>s.
       and_then (get s (fst (hd kvs))) (\<lambda>(got, s1).
         and_then (put s1 (fst (last kvs)) (snd (last kvs))) (\<lambda>s2. Inr (got, s2))))"

text \<open>
  The data-structure invariant of the cache: the recency ordering has no duplicates, it
  holds exactly the keys of the lookup structure, and a stored iterator that is still
  valid designates its own key.
\<close>

definition box_inv :: "('k, 'v) LruBox \<Rightarrow> bool" where
  "box_inv s \<longleftrightarrow>
     distinct (order s) \<and> dom (slots s) = set (order s) \<and>
     (\<forall>k \<in> set (order s).
        case slots s k of
          None \<Rightarrow> False
        | Some (v, it) \<Rightarrow>
            (case it of None \<Rightarrow> True | Some i \<Rightarrow> i < length (order s) \<and> order s ! i = k))"

section \<open>Retrieval\<close>

text \<open>
  \<^verbatim>\<open>
  static std::vector<int> fake_retrieval(const std::string& q, int top_k) {
    std::seed_seq seed(q.begin(), q.end());
    std::mt19937 rng(seed);
    std::uniform_int_distribution<int> pick(0, 200000);
    std::vector<int> hits;
    hits.reserve(top_k);
    for (int i = 0; i < top_k; i++) hits.push_back(pick(rng));
    std::sort(hits.begin(), hits.end());
    hits.erase(std::unique(hits.begin(), hits.end()), hits.end());
    return hits;
  }
  \<close>
  The generator is library code: it is built anew from the bytes of \<^verbatim>\<open>q\<close> on every call and
  is the only thing \<^verbatim>\<open>pick\<close> reads, so the \<open>i\<close>-th number drawn is a function of \<^verbatim>\<open>q\<close> and
  \<open>i\<close>.  That function is the parameter \<open>draws\<close>.  \<^verbatim>\<open>reserve\<close> takes a \<^verbatim>\<open>size_t\<close>: a negative
  \<^verbatim>\<open>top_k\<close> arrives as at least \<open>2^64 - 2^31\<close>, above the \<^verbatim>\<open>max_size()\<close> of any vector, and
  \<^verbatim>\<open>reserve\<close> throws.  \<^verbatim>\<open>std::unique\<close> keeps the first of every run of equal neighbours.
\<close>

definition fake_retrieval :: "(string \<Rightarrow> nat \<Rightarrow> int) \<Rightarrow> string \<Rightarrow> int \<Rightarrow> fault + int list" where
  "fake_retrieval draws q top_k =
     (if top_k < 0 then Inl Length_error
      else Inr (remdups_adj (sort (map (draws q) [0..<nat top_k]))))"

section \<open>Fragments and context\<close>

text \<open>\<^verbatim>\<open>std::to_string\<close> on an integer: decimal digits, a minus sign for a negative number.\<close>

definition digit :: "nat \<Rightarrow> char" where
  "digit d = ''0123456789'' ! d"

fun nat_digits :: "nat \<Rightarrow> string" where
  "nat_digits n = (if n < 10 then [digit n] else nat_digits (n div 10) @ [digit (n mod 10)])"

declare nat_digits.simps [simp del]

definition to_string :: "int \<Rightarrow> string" where
  "to_string i = (if i < 0 then CHR ''-'' # nat_digits (nat (- i)) else nat_digits (nat i))"

text \<open>
  \<^verbatim>\<open>
  static std::string fake_doc_text(int doc_id) {
    return "Doc#" + std::to_string(doc_id) + " :: " +
           "A short block of evidence text used for grounding.";
  }
  \<close>
\<close>

definition fake_doc_text :: "int \<Rightarrow> string" where
  "fake_doc_text doc_id =
     ''Doc#'' @ to_string doc_id @ '' :: '' @
     ''A short block of evidence text used for grounding.''"

text \<open>
  \<^verbatim>\<open>
  static std::string build_context(const std::vector<int>& doc_ids,
                                   LruBox<int, std::string>& block_cache,
                                   int token_budget) {
    std::string stitched;
    stitched.reserve(static_cast<size_t>(token_budget) * 4);
    int tokens_left = token_budget;
    for (int id : doc_ids) {
      auto got = block_cache.get(id);
      std::string piece = got ? *got : fake_doc_text(id);
      if (!got) block_cache.put(id, piece);
      int cost = 40; // pretend tokens per block
      if (tokens_left - cost < 0) break;
      tokens_left -= cost;
      stitched += piece;
      stitched += "\n";
    }
    return stitched;
  }
  \<close>
  The budget is an \<^verbatim>\<open>int\<close> of 32 bits, cast to \<^verbatim>\<open>size_t\<close> and multiplied modulo \<open>2^64\<close>.
  \<^verbatim>\<open>reserve\<close> throws \<^verbatim>\<open>std::length_error\<close> when the request exceeds \<^verbatim>\<open>max_size()\<close>.  That
  constant belongs to the library; it is never above \<^verbatim>\<open>PTRDIFF_MAX\<close>, the value used here.
  A request made from a 32-bit budget is below \<open>2^33\<close> when the budget is not negative and
  at least \<open>2^64 - 2^33\<close> when it is, so any other value a library has for the constant
  decides the same way.  Running out of memory is not part of the model.
\<close>

definition string_max_size :: nat where
  "string_max_size = 2 ^ 63 - 1"

definition reserve_request :: "int \<Rightarrow> nat" where
  "reserve_request token_budget = (size_t_of_int token_budget * 4) mod 2 ^ 64"

text \<open>
  The first three lines of the loop body resolve one identifier through the fragment
  cache; \<open>resolve\<close> returns the fragment and the cache.
\<close>

definition resolve :: "(int, string) LruBox \<Rightarrow> int \<Rightarrow> fault + (string \<times> (int, string) LruBox)" where
  "resolve c doc_id =
     and_then (get c doc_id) (\<lambda>(got, c1).
       case got of
         Some p \<Rightarrow> Inr (p, c1)
       | None \<Rightarrow> and_then (put c1 doc_id (fake_doc_text doc_id)) (\<lambda>c2. Inr (fake_doc_text doc_id, c2)))"

text \<open>
  The loop, with its two variables \<^verbatim>\<open>tokens_left\<close> and \<^verbatim>\<open>stitched\<close>.  \<^verbatim>\<open>tokens_left\<close> is never
  negative here (a negative budget does not get past \<^verbatim>\<open>reserve\<close>), so the subtraction stays
  within the \<^verbatim>\<open>int\<close> range.
\<close>

fun build_loop ::
  "int list \<Rightarrow> (int, string) LruBox \<Rightarrow> int \<Rightarrow> string \<Rightarrow> fault + (string \<times> (int, string) LruBox)" where
  "build_loop [] c tokens_left stitched = Inr (stitched, c)"
| "build_loop (doc_id # ids) c tokens_left stitched =
     and_then (resolve c doc_id) (\<lambda>(piece, c2).
       if tokens_left - 40 < 0 then Inr (stitched, c2)
       else build_loop ids c2 (tokens_left - 40) (stitched @ piece @ [CHR 0x0A]))"

definition build_context ::
  "int list \<Rightarrow> (int, string) LruBox \<Rightarrow> int \<Rightarrow> fault + (string \<times> (int, string) LruBox)" where
  "build_context doc_ids block_cache token_budget =
     (if string_max_size < reserve_request token_budget then Inl Length_error
      else build_loop doc_ids block_cache token_budget [])"

text \<open>Resolving a list of identifiers one after the other, and the fragments that gives.\<close>

fun resolve_all ::
  "int list \<Rightarrow> (int, string) LruBox \<Rightarrow> fault + (string list \<times> (int, string) LruBox)" where
  "resolve_all [] c = Inr ([], c)"
| "resolve_all (doc_id # ids) c =
     and_then (resolve c doc_id) (\<lambda>(piece, c2).
       and_then (resolve_all ids c2) (\<lambda>(pieces, c3). Inr (piece # pieces, c3)))"

section \<open>Generation\<close>

text \<open>
  \<^verbatim>\<open>
  static std::string fake_generate(const std::string& question,
                                   const std::string& context, bool cheap_mode) {
    int base = cheap_mode ? 12 : 20;
    int extra = static_cast<int>(context.size() / 300);
    tiny_pause_ms(base + extra);
    return "Answer: " + question + "\n(grounded in " +
           std::to_string(context.size()) + " bytes of context)";
  }
  \<close>
  The pause is time only.
\<close>

definition fake_generate :: "string \<Rightarrow> string \<Rightarrow> bool \<Rightarrow> string" where
  "fake_generate question context cheap =
     ''Answer: '' @ question @ [CHR 0x0A] @ ''(grounded in '' @
     to_string (int (length context)) @ '' bytes of context)''"

section \<open>Knobs\<close>

record TuneKnobs =
  top_k :: int
  batch :: int
  cheap_mode :: bool

text \<open>
  \<^verbatim>\<open>pick_knobs\<close> compares \<^verbatim>\<open>double\<close>s.  The arithmetic of \<^verbatim>\<open>double\<close> is not defined in the
  source: the product, the comparison and the two literals are parameters.
\<close>

record 'd double_ops =
  dmul :: "'d \<Rightarrow> 'd \<Rightarrow> 'd"
  dgreater :: "'d \<Rightarrow> 'd \<Rightarrow> bool"
  lit_0_55 :: 'd
  lit_0_25 :: 'd

text \<open>
  \<^verbatim>\<open>
  static TuneKnobs pick_knobs(double p95_budget_ms, double recent_retr_ms,
                              double recent_gen_ms) {
    TuneKnobs k;
    if (recent_gen_ms > p95_budget_ms * 0.55) { k.top_k = 6; k.cheap_mode = true; }
    else { k.top_k = 10; k.cheap_mode = false; }
    if (recent_retr_ms > p95_budget_ms * 0.25) k.batch = 16;
    else k.batch = 8;
    return k;
  }
  \<close>
\<close>

definition default_knobs :: TuneKnobs where
  "default_knobs = \<lparr>top_k = 8, batch = 8, cheap_mode = False\<rparr>"

definition pick_knobs :: "'d double_ops \<Rightarrow> 'd \<Rightarrow> 'd \<Rightarrow> 'd \<Rightarrow> TuneKnobs" where
  "pick_knobs D p95_budget_ms recent_retr_ms recent_gen_ms =
     (let k = default_knobs;
          k = (if dgreater D recent_gen_ms (dmul D p95_budget_ms (lit_0_55 D))
               then k\<lparr>top_k := 6, cheap_mode := True\<rparr>
               else k\<lparr>top_k := 10, cheap_mode := False\<rparr>);
          k = (if dgreater D recent_retr_ms (dmul D p95_budget_ms (lit_0_25 D))
               then k\<lparr>batch := 16\<rparr>
               else k\<lparr>batch := 8\<rparr>)
      in k)"

section \<open>Serving one request\<close>

text \<open>
  Of \<^verbatim>\<open>Timings\<close> the model keeps \<^verbatim>\<open>cache_hit\<close>; the four durations are differences of
  wall-clock readings.  The retrieval task started with \<^verbatim>\<open>std::async\<close> reads \<^verbatim>\<open>question\<close> and
  \<^verbatim>\<open>knobs\<close>, touches neither cache, and is joined before its result is used (an exception
  in it is rethrown by \<^verbatim>\<open>retr_future.get()\<close>), so it is evaluated in place.  Besides the
  \<^verbatim>\<open>Timings\<close>, the result holds what \<^verbatim>\<open>serve_one\<close> prints (the answer), the identifier list it
  used, and the two caches it was given by reference.
\<close>

record Timings =
  cache_hit :: bool

record served =
  timings :: Timings
  answer :: string
  doc_ids_used :: "int list"
  retr_cache_after :: "(string, int list) LruBox"
  block_cache_after :: "(int, string) LruBox"

definition serve_one ::
  "(string \<Rightarrow> nat \<Rightarrow> int) \<Rightarrow> string \<Rightarrow> (string, int list) LruBox \<Rightarrow> (int, string) LruBox \<Rightarrow>
   TuneKnobs \<Rightarrow> fault + served" where
  "serve_one draws question retr_cache block_cache knobs =
     and_then (get retr_cache question) (\<lambda>(cached, rc1).
       let hit = (cached \<noteq> None) in
       and_then
         (case cached of
            Some ids \<Rightarrow> Inr (ids, rc1)
          | None \<Rightarrow>
              and_then (fake_retrieval draws question (top_k knobs)) (\<lambda>out.
                and_then (put rc1 question out) (\<lambda>rc2. Inr (out, rc2))))
         (\<lambda>(doc_ids, rc3).
            let token_budget = (if cheap_mode knobs then 220 else 320) in
            and_then (build_context doc_ids block_cache token_budget) (\<lambda>(context, bc).
              Inr \<lparr>timings = \<lparr>cache_hit = hit\<rparr>,
                   answer = fake_generate question context (cheap_mode knobs),
                   doc_ids_used = doc_ids,
                   retr_cache_after = rc3,
                   block_cache_after = bc\<rparr>)))"

text \<open>The same request served twice in a row, the caches carried over.\<close>

definition serve_twice ::
  "(string \<Rightarrow> nat \<Rightarrow> int) \<Rightarrow> string \<Rightarrow> (string, int list) LruBox \<Rightarrow> (int, string) LruBox \<Rightarrow>
   TuneKnobs \<Rightarrow> fault + (served \<times> served)" where
  "serve_twice draws question retr_cache block_cache knobs =
     and_then (serve_one draws question retr_cache block_cache knobs) (\<lambda>r1.
       and_then (serve_one draws question (retr_cache_after r1) (block_cache_after r1) knobs) (\<lambda>r2.
         Inr (r1, r2)))"

section \<open>Basic facts about the operations\<close>

lemma and_then_Inl [simp]: "and_then (Inl e) f = Inl e"
  by (simp add: and_then_def)

lemma and_then_Inr [simp]: "and_then (Inr x) f = f x"
  by (simp add: and_then_def)

lemma and_then_eq_Inr: "and_then r f = Inr y \<longleftrightarrow> (\<exists>x. r = Inr x \<and> f x = Inr y)"
  by (cases r) simp_all

lemma retarget_apply: "retarget f m k = map_option (\<lambda>(v, it). (v, f it)) (m k)"
  by (simp add: retarget_def)

lemma dom_retarget [simp]: "dom (retarget f m) = dom m"
  by (auto simp: retarget_def dom_def)

lemma retarget_push_front_twice [simp]:
  "retarget push_front_inval (retarget f m) = retarget push_front_inval m"
  by (auto simp: retarget_def push_front_inval_def fun_eq_iff map_option_case split: option.splits)

lemma retarget_push_front_apply:
  "retarget push_front_inval m k = map_option (\<lambda>(v, it). (v, None)) (m k)"
  by (auto simp: retarget_def push_front_inval_def split: option.splits)

lemma box_inv_iff:
  "box_inv s \<longleftrightarrow>
     distinct (order s) \<and> dom (slots s) = set (order s) \<and>
     (\<forall>k v i. slots s k = Some (v, Some i) \<longrightarrow> i < length (order s) \<and> order s ! i = k)"
  unfolding box_inv_def
  by (intro conj_cong refl iffI; (auto split: option.splits prod.splits)?; fastforce split: option.splits)

lemma box_inv_LruBox: "box_inv (LruBox c)"
  by (simp add: box_inv_def LruBox_def)

lemma nth_removed:
  assumes "i < length xs"
  shows "set (xs ! i # take i xs @ drop (Suc i) xs) = set xs"
    and "distinct xs \<Longrightarrow> distinct (xs ! i # take i xs @ drop (Suc i) xs)"
    and "length (xs ! i # take i xs @ drop (Suc i) xs) = length xs"
proof -
  have xs: "xs = take i xs @ xs ! i # drop (Suc i) xs"
    using assms by (rule id_take_nth_drop)
  have "set xs = set (take i xs @ xs ! i # drop (Suc i) xs)"
    using xs by simp
  then show "set (xs ! i # take i xs @ drop (Suc i) xs) = set xs"
    by auto
  show "distinct (xs ! i # take i xs @ drop (Suc i) xs)" if "distinct xs"
  proof -
    have "distinct (take i xs @ xs ! i # drop (Suc i) xs)"
      using xs that by simp
    then show ?thesis by auto
  qed
  show "length (xs ! i # take i xs @ drop (Suc i) xs) = length xs"
    using assms by simp
qed

lemma touch_invalid [simp]: "touch s None = Inl Invalid_iterator"
  by (simp add: touch_def)

lemma touch_valid:
  "i < length (order s) \<Longrightarrow>
   touch s (Some i) =
     Inr (s\<lparr>order := order s ! i # take i (order s) @ drop (Suc i) (order s),
            slots := set_iter (retarget push_front_inval (slots s)) (order s ! i) (Some 0)\<rparr>)"
  by (simp add: touch_def Let_def)

lemma touch_past_end: "length (order s) \<le> i \<Longrightarrow> touch s (Some i) = Inl Invalid_iterator"
  by (simp add: touch_def)

lemma get_absent: "slots s key = None \<Longrightarrow> get s key = Inr (None, s)"
  by (simp add: get_def)

lemma get_stale: "slots s key = Some (v, None) \<Longrightarrow> get s key = Inl Invalid_iterator"
  by (simp add: get_def)

lemma put_stale: "slots s key = Some (v0, None) \<Longrightarrow> put s key v = Inl Invalid_iterator"
  by (simp add: put_def)

lemma get_hit:
  assumes "box_inv s" "slots s key = Some (v, Some i)"
  shows "get s key =
     Inr (Some v, s\<lparr>order := key # take i (order s) @ drop (Suc i) (order s),
                     slots := (retarget push_front_inval (slots s))(key \<mapsto> (v, Some 0))\<rparr>)"
proof -
  from assms have i: "i < length (order s)" "order s ! i = key"
    by (auto simp: box_inv_iff)
  have "set_iter (retarget push_front_inval (slots s)) key (Some 0) =
        (retarget push_front_inval (slots s))(key \<mapsto> (v, Some 0))"
    using assms(2) by (simp add: set_iter_def retarget_push_front_apply)
  then show ?thesis
    using assms(2) i by (simp add: get_def touch_valid)
qed

lemma put_present:
  assumes "box_inv s" "slots s key = Some (v0, Some i)"
  shows "put s key v =
     Inr (s\<lparr>order := key # take i (order s) @ drop (Suc i) (order s),
            slots := (retarget push_front_inval (slots s))(key \<mapsto> (v, Some 0))\<rparr>)"
proof -
  from assms have i: "i < length (order s)" "order s ! i = key"
    by (auto simp: box_inv_iff)
  let ?s1 = "s\<lparr>slots := (slots s)(key \<mapsto> (v, Some i))\<rparr>"
  have "set_iter (retarget push_front_inval (slots ?s1)) key (Some 0) =
        (retarget push_front_inval (slots s))(key \<mapsto> (v, Some 0))"
    by (auto simp: set_iter_def retarget_push_front_apply fun_eq_iff)
  then show ?thesis
    using assms(2) i by (simp add: put_def touch_valid)
qed

lemma put_absent_room:
  assumes "slots s key = None" "length (order s) < cap s"
  shows "put s key v =
     Inr (s\<lparr>order := key # order s,
            slots := (retarget push_front_inval (slots s))(key \<mapsto> (v, Some 0))\<rparr>)"
  using assms by (simp add: put_def)

lemma put_absent_full:
  assumes "slots s key = None" "cap s \<le> length (order s)" "order s \<noteq> []"
  shows "put s key v =
     Inr (s\<lparr>order := key # butlast (order s),
            slots := (retarget push_front_inval ((slots s)(last (order s) := None)))(key \<mapsto> (v, Some 0))\<rparr>)"
  using assms by (simp add: put_def evict_def Let_def)

lemma put_absent_empty_full:
  assumes "slots s key = None" "cap s \<le> length (order s)" "order s = []"
  shows "put s key v = Inl Empty_deque"
  using assms by (simp add: put_def evict_def)

section \<open>The invariant is kept\<close>

lemma size_box_inv: "box_inv s \<Longrightarrow> size_box s = length (order s)"
  by (simp add: box_inv_def size_box_def distinct_card)

lemma stale_not_valid [simp]: "retarget push_front_inval m k \<noteq> Some (w, Some i)"
  by (auto simp: retarget_push_front_apply split: option.splits)

lemma stale_iter_Some:
  "((retarget push_front_inval m)(key \<mapsto> (v, Some 0))) k = Some (w, Some i) \<longleftrightarrow>
   k = key \<and> w = v \<and> i = 0"
  by auto

lemma box_inv_moved:
  assumes "box_inv s" "slots s key = Some (v0, Some i)"
  shows "box_inv (s\<lparr>order := key # take i (order s) @ drop (Suc i) (order s),
                    slots := (retarget push_front_inval (slots s))(key \<mapsto> (v, Some 0))\<rparr>)"
proof -
  from assms have i: "i < length (order s)" "order s ! i = key"
    by (auto simp: box_inv_iff)
  from assms have d: "distinct (order s)" "dom (slots s) = set (order s)"
    by (auto simp: box_inv_iff)
  have 1: "set (key # take i (order s) @ drop (Suc i) (order s)) = set (order s)"
    using nth_removed(1)[OF i(1)] i(2) by simp
  have 2: "distinct (key # take i (order s) @ drop (Suc i) (order s))"
    using nth_removed(2)[OF i(1) d(1)] i(2) by simp
  have 3: "key \<in> set (order s)"
    using i by auto
  show ?thesis
    unfolding box_inv_iff
    using 1 2 3 d(2) by (auto simp: stale_iter_Some simp del: set_append distinct_append)
qed

lemma box_inv_get:
  assumes "box_inv s" "get s key = Inr (r, s')"
  shows "box_inv s' \<and> cap s' = cap s \<and> set (order s') = set (order s) \<and>
         length (order s') = length (order s)"
proof (cases "slots s key")
  case None
  then show ?thesis using assms by (simp add: get_absent)
next
  case (Some a)
  obtain v it where a: "a = (v, it)" by (cases a)
  show ?thesis
  proof (cases it)
    case None
    then show ?thesis using assms Some a by (simp add: get_stale)
  next
    case (Some i)
    have sl: "slots s key = Some (v, Some i)"
      using \<open>slots s key = Some a\<close> a Some by simp
    from assms(1) sl have i: "i < length (order s)" "order s ! i = key"
      by (auto simp: box_inv_iff)
    have s': "s' = s\<lparr>order := key # take i (order s) @ drop (Suc i) (order s),
                    slots := (retarget push_front_inval (slots s))(key \<mapsto> (v, Some 0))\<rparr>"
      using get_hit[OF assms(1) sl] assms(2) by simp
    have "box_inv s'"
      unfolding s' by (rule box_inv_moved[OF assms(1) sl])
    moreover have "set (order s') = set (order s)" "length (order s') = length (order s)"
      using nth_removed(1,3)[OF i(1)] i(2) by (simp_all add: s')
    ultimately show ?thesis by (simp add: s')
  qed
qed

lemma set_butlast_distinct:
  assumes "distinct xs" "xs \<noteq> []"
  shows "set (butlast xs) = set xs - {last xs}"
proof -
  obtain ys y where xs: "xs = ys @ [y]"
    using assms(2) by (cases xs rule: rev_cases) auto
  show ?thesis
    using assms(1) unfolding xs by auto
qed

lemma box_inv_pushed:
  assumes "distinct (key # xs)" "dom m = set xs"
  shows "box_inv (s\<lparr>order := key # xs, slots := (retarget push_front_inval m)(key \<mapsto> (v, Some 0))\<rparr>)"
proof -
  let ?m = "(retarget push_front_inval m)(key \<mapsto> (v, Some 0))"
  have "dom ?m = set (key # xs)"
    using assms(2) by simp
  moreover have "\<forall>k w j. ?m k = Some (w, Some j) \<longrightarrow> j < length (key # xs) \<and> (key # xs) ! j = k"
    by (simp add: stale_iter_Some)
  ultimately show ?thesis
    unfolding box_inv_iff using assms(1) by (simp del: fun_upd_apply dom_fun_upd)
qed

lemma box_inv_put:
  assumes "box_inv s" "put s key v = Inr s'"
  shows "box_inv s' \<and> cap s' = cap s \<and>
         (length (order s) \<le> cap s \<longrightarrow> length (order s') \<le> cap s)"
proof (cases "slots s key")
  case None
  from assms(1) have d: "distinct (order s)" "dom (slots s) = set (order s)"
    by (auto simp: box_inv_iff)
  from None have "key \<notin> dom (slots s)"
    by (simp add: domIff)
  with d have fresh: "key \<notin> set (order s)"
    by simp
  show ?thesis
  proof (cases "cap s \<le> length (order s)")
    case True
    have ne: "order s \<noteq> []"
      using put_absent_empty_full[OF None True] assms(2) by auto
    have s': "s' = s\<lparr>order := key # butlast (order s),
        slots := (retarget push_front_inval ((slots s)(last (order s) := None)))(key \<mapsto> (v, Some 0))\<rparr>"
      using put_absent_full[OF None True ne] assms(2) by simp
    have "key \<notin> set (butlast (order s))"
      using fresh by (blast dest: in_set_butlastD)
    then have 1: "distinct (key # butlast (order s))"
      using d(1) by (simp add: distinct_butlast)
    have 2: "dom ((slots s)(last (order s) := None)) = set (butlast (order s))"
      using d(2) by (simp add: set_butlast_distinct[OF d(1) ne])
    have "box_inv s'"
      unfolding s' by (rule box_inv_pushed[OF 1 2])
    moreover have "length (order s') = length (order s)"
      using ne by (simp add: s')
    moreover have "cap s' = cap s"
      by (simp add: s')
    ultimately show ?thesis by simp
  next
    case False
    then have room: "length (order s) < cap s" by simp
    have s': "s' = s\<lparr>order := key # order s,
        slots := (retarget push_front_inval (slots s))(key \<mapsto> (v, Some 0))\<rparr>"
      using put_absent_room[OF None room] assms(2) by simp
    have 1: "distinct (key # order s)"
      using d(1) fresh by simp
    have "box_inv s'"
      unfolding s' by (rule box_inv_pushed[OF 1 d(2)])
    moreover have "length (order s') = Suc (length (order s))" "cap s' = cap s"
      by (simp_all add: s')
    ultimately show ?thesis using room by simp
  qed
next
  case (Some a)
  obtain v0 it where a: "a = (v0, it)" by (cases a)
  show ?thesis
  proof (cases it)
    case None
    then show ?thesis using assms Some a by (simp add: put_stale)
  next
    case (Some i)
    have sl: "slots s key = Some (v0, Some i)"
      using \<open>slots s key = Some a\<close> a Some by simp
    from assms(1) sl have i: "i < length (order s)" "order s ! i = key"
      by (auto simp: box_inv_iff)
    have s': "s' = s\<lparr>order := key # take i (order s) @ drop (Suc i) (order s),
                    slots := (retarget push_front_inval (slots s))(key \<mapsto> (v, Some 0))\<rparr>"
      using put_present[OF assms(1) sl] assms(2) by simp
    have "box_inv s'"
      unfolding s' by (rule box_inv_moved[OF assms(1) sl])
    moreover have "length (order s') = length (order s)"
      using i(1) by (simp add: s')
    moreover have "cap s' = cap s"
      by (simp add: s')
    ultimately show ?thesis by simp
  qed
qed

lemma put_all_inv:
  assumes "box_inv s" "length (order s) \<le> cap s" "put_all s kvs = Inr s'"
  shows "box_inv s' \<and> cap s' = cap s \<and> size_box s' \<le> cap s"
  using assms
proof (induction kvs arbitrary: s)
  case Nil
  then show ?case by (simp add: size_box_inv)
next
  case (Cons kv kvs)
  obtain k v where kv: "kv = (k, v)" by (cases kv)
  from Cons.prems(3) obtain s1 where s1: "put s k v = Inr s1" "put_all s1 kvs = Inr s'"
    by (auto simp: kv and_then_eq_Inr)
  from box_inv_put[OF Cons.prems(1) s1(1)] Cons.prems(2)
  have "box_inv s1" "cap s1 = cap s" "length (order s1) \<le> cap s1" by simp_all
  with Cons.IH[OF _ _ s1(2)] show ?case by simp
qed

lemma put_all_LruBox_size:
  assumes "put_all (LruBox C) kvs = Inr s'"
  shows "size_box s' \<le> C"
  using put_all_inv[OF box_inv_LruBox _ assms] by (simp add: LruBox_def)

section \<open>Resolving identifiers\<close>

lemma resolve_absent:
  "slots c doc_id = None \<Longrightarrow>
   resolve c doc_id = and_then (put c doc_id (fake_doc_text doc_id)) (\<lambda>c2. Inr (fake_doc_text doc_id, c2))"
  by (simp add: resolve_def get_absent)

lemma resolve_stale: "slots c doc_id = Some (v, None) \<Longrightarrow> resolve c doc_id = Inl Invalid_iterator"
  by (simp add: resolve_def get_stale)

lemma resolve_hit:
  assumes "box_inv c" "slots c doc_id = Some (v, Some i)"
  shows "resolve c doc_id =
     Inr (v, c\<lparr>order := doc_id # take i (order c) @ drop (Suc i) (order c),
               slots := (retarget push_front_inval (slots c))(doc_id \<mapsto> (v, Some 0))\<rparr>)"
  by (simp add: resolve_def get_hit[OF assms])

lemma resolve_piece:
  assumes "resolve c doc_id = Inr (p, c')"
  shows "p = (case slots c doc_id of Some (v, it) \<Rightarrow> v | None \<Rightarrow> fake_doc_text doc_id)"
proof (cases "slots c doc_id")
  case None
  then show ?thesis
    using assms by (auto simp: resolve_absent and_then_eq_Inr)
next
  case (Some a)
  then show ?thesis
    using assms by (auto simp: resolve_def get_def and_then_eq_Inr split: sum.splits prod.splits)
qed

lemma touch_keeps_keys:
  assumes "touch s it = Inr s'" "slots s k \<noteq> None"
  shows "slots s' k \<noteq> None"
proof (cases it)
  case None
  then show ?thesis using assms by simp
next
  case (Some i)
  show ?thesis
  proof (cases "i < length (order s)")
    case True
    have "slots s' = set_iter (retarget push_front_inval (slots s)) (order s ! i) (Some 0)"
      using assms(1) Some touch_valid[OF True] by auto
    then show ?thesis
      using assms(2) by (auto simp: set_iter_def retarget_push_front_apply split: option.splits)
  next
    case False
    then show ?thesis using assms Some by (simp add: touch_past_end)
  qed
qed

lemma touch_keeps_values:
  assumes "touch s it = Inr s'" "slots s k = Some (v, j)"
  shows "\<exists>j'. slots s' k = Some (v, j')"
proof (cases it)
  case None
  then show ?thesis using assms by simp
next
  case (Some i)
  show ?thesis
  proof (cases "i < length (order s)")
    case True
    have "slots s' = set_iter (retarget push_front_inval (slots s)) (order s ! i) (Some 0)"
      using assms(1) Some touch_valid[OF True] by auto
    then show ?thesis
      using assms(2) by (auto simp: set_iter_def retarget_push_front_apply split: option.splits)
  next
    case False
    then show ?thesis using assms Some by (simp add: touch_past_end)
  qed
qed

lemma put_stores:
  assumes "put s key v = Inr s'"
  shows "slots s' key \<noteq> None"
proof (cases "slots s key")
  case None
  then show ?thesis
    using assms by (auto simp: put_def evict_def Let_def split: if_splits)
next
  case (Some a)
  obtain v0 it where a: "a = (v0, it)" by (cases a)
  have "touch (s\<lparr>slots := (slots s)(key \<mapsto> (v, it))\<rparr>) it = Inr s'"
    using assms Some a by (simp add: put_def)
  from touch_keeps_keys[OF this, of key] show ?thesis by simp
qed

lemma resolve_stores:
  assumes "resolve c doc_id = Inr (p, c')"
  shows "slots c' doc_id \<noteq> None"
proof (cases "slots c doc_id")
  case None
  then obtain c2 where "put c doc_id (fake_doc_text doc_id) = Inr c2" "c' = c2"
    using assms by (auto simp: resolve_absent and_then_eq_Inr)
  then show ?thesis using put_stores[of c doc_id "fake_doc_text doc_id" c2] by simp
next
  case (Some a)
  obtain v it where a: "a = (v, it)" by (cases a)
  have "touch c it = Inr c'"
    using assms Some a by (auto simp: resolve_def get_def split: sum.splits)
  from touch_keeps_keys[OF this, of doc_id] Some show ?thesis by simp
qed

lemma resolve_all_length:
  "resolve_all ids c = Inr (ps, c') \<Longrightarrow> length ps = length ids"
proof (induction ids arbitrary: c ps)
  case Nil
  then show ?case by simp
next
  case (Cons a ids)
  then show ?case
    by (auto simp: and_then_eq_Inr)
qed

lemma resolve_all_append:
  "resolve_all (xs @ ys) c =
     and_then (resolve_all xs c) (\<lambda>(ps, c1).
       and_then (resolve_all ys c1) (\<lambda>(qs, c2). Inr (ps @ qs, c2)))"
proof (induction xs arbitrary: c)
  case Nil
  show ?case by (cases "resolve_all ys c") auto
next
  case (Cons a xs)
  show ?case
  proof (cases "resolve c a")
    case (Inl e)
    then show ?thesis by simp
  next
    case (Inr r)
    obtain p c1 where r: "r = (p, c1)" by (cases r)
    show ?thesis
      using Inr r Cons.IH[of c1]
      by (cases "resolve_all xs c1"; cases "resolve_all ys (snd (projr (resolve_all xs c1)))")
         (auto simp: and_then_def split: sum.splits prod.splits)
  qed
qed

lemma resolve_inv:
  assumes "box_inv c" "resolve c doc_id = Inr (p, c')"
  shows "box_inv c' \<and> cap c' = cap c \<and> dom (slots c') \<subseteq> insert doc_id (dom (slots c)) \<and>
         (length (order c) \<le> cap c \<longrightarrow> length (order c') \<le> cap c)"
proof (cases "slots c doc_id")
  case None
  then obtain c2 where p: "put c doc_id (fake_doc_text doc_id) = Inr c2" and c': "c' = c2"
    using assms(2) by (auto simp: resolve_absent and_then_eq_Inr)
  have "dom (slots c') \<subseteq> insert doc_id (dom (slots c))"
  proof (cases "cap c \<le> length (order c)")
    case True
    have ne: "order c \<noteq> []"
      using put_absent_empty_full[OF None True] p by auto
    show ?thesis
      using put_absent_full[OF None True ne, of "fake_doc_text doc_id"] p c' by auto
  next
    case False
    then have room: "length (order c) < cap c" by simp
    show ?thesis
      using put_absent_room[OF None room, of "fake_doc_text doc_id"] p c' by auto
  qed
  then show ?thesis
    using box_inv_put[OF assms(1) p] c' by simp
next
  case (Some a)
  obtain v it where a: "a = (v, it)" by (cases a)
  from assms(2) Some a have g: "get c doc_id = Inr (Some v, c')"
    by (auto simp: resolve_def get_def split: sum.splits)
  then obtain i where it: "it = Some i"
    using Some a by (cases it) (auto simp: get_stale)
  have "slots c' = (retarget push_front_inval (slots c))(doc_id \<mapsto> (v, Some 0))"
    using get_hit[OF assms(1), of doc_id v i] g Some a it by simp
  then have "dom (slots c') \<subseteq> insert doc_id (dom (slots c))"
    by auto
  then show ?thesis
    using box_inv_get[OF assms(1) g] by simp
qed

lemma resolve_all_inv:
  assumes "box_inv c" "resolve_all ids c = Inr (ps, c')"
  shows "box_inv c' \<and> cap c' = cap c \<and> dom (slots c') \<subseteq> dom (slots c) \<union> set ids \<and>
         (length (order c) \<le> cap c \<longrightarrow> size_box c' \<le> cap c)"
  using assms
proof (induction ids arbitrary: c ps)
  case Nil
  then show ?case by (simp add: size_box_inv)
next
  case (Cons a ids)
  from Cons.prems(2) obtain p c1 qs where 1: "resolve c a = Inr (p, c1)"
      "resolve_all ids c1 = Inr (qs, c')"
    by (auto simp: and_then_eq_Inr)
  note r = resolve_inv[OF Cons.prems(1) 1(1)]
  from r have inv1: "box_inv c1" by simp
  from Cons.IH[OF inv1 1(2)] r show ?case
    by auto
qed

lemma div40: "0 \<le> (t::int) \<Longrightarrow> \<not> t - 40 < 0 \<Longrightarrow> nat (t div 40) = Suc (nat ((t - 40) div 40))"
  by (simp add: Suc_nat_eq_nat_zadd1 div_pos_pos_trivial) 

lemma build_loop_resolve_all:
  assumes "0 \<le> t"
  shows "build_loop ids c t st =
     and_then (resolve_all (take (Suc (nat (t div 40))) ids) c) (\<lambda>(ps, c').
       Inr (st @ concat (map (\<lambda>p. p @ [CHR 0x0A]) (take (nat (t div 40)) ps)), c'))"
  using assms
proof (induction ids arbitrary: c t st)
  case Nil
  then show ?case by simp
next
  case (Cons a ids)
  show ?case
  proof (cases "resolve c a")
    case (Inl e)
    then show ?thesis by simp
  next
    case (Inr r)
    obtain p c1 where r: "r = (p, c1)" by (cases r)
    show ?thesis
    proof (cases "t - 40 < 0")
      case True
      with Cons.prems have "nat (t div 40) = 0"
        by (simp add: div_pos_pos_trivial)
      then show ?thesis
        using Inr r True by simp
    next
      case False
      with Cons.prems have k: "nat (t div 40) = Suc (nat ((t - 40) div 40))"
        by (rule div40)
      from False have "0 \<le> t - 40" by simp
      from Cons.IH[OF this, of c1 "st @ p @ [CHR 0x0A]"] show ?thesis
        using Inr r False k
        by (cases "resolve_all (take (Suc (nat ((t - 40) div 40))) ids) c1") auto
    qed
  qed
qed

section \<open>Keys put for the first time\<close>

lemma take_append_take: "take n (xs @ take n ys) = take n (xs @ ys)"
  by (simp add: min_def)

lemma put_fresh:
  assumes "box_inv s" "slots s key = None" "1 \<le> cap s" "length (order s) \<le> cap s"
  shows "\<exists>s'. put s key v = Inr s' \<and> box_inv s' \<and> cap s' = cap s \<and>
           order s' = take (cap s) (key # order s) \<and>
           slots s' key = Some (v, Some 0) \<and>
           (\<forall>k. k \<noteq> key \<longrightarrow>
              slots s' k = (if k \<in> set (order s') then map_option (\<lambda>(w, it). (w, None)) (slots s k) else None))"
proof -
  from assms(1) have d: "distinct (order s)" "dom (slots s) = set (order s)"
    by (auto simp: box_inv_iff)
  have out: "slots s k = None" if "k \<notin> set (order s)" for k
    using that d(2) by (auto simp: domIff)
  show ?thesis
  proof (cases "cap s \<le> length (order s)")
    case True
    with assms have len: "length (order s) = cap s" and ne: "order s \<noteq> []"
      by auto
    let ?s' = "s\<lparr>order := key # butlast (order s),
        slots := (retarget push_front_inval ((slots s)(last (order s) := None)))(key \<mapsto> (v, Some 0))\<rparr>"
    have p: "put s key v = Inr ?s'"
      by (rule put_absent_full[OF assms(2) True ne])
    have o: "key # butlast (order s) = take (cap s) (key # order s)"
      using assms(3) len by (cases "cap s") (simp_all add: butlast_conv_take)
    have "slots ?s' k = (if k \<in> set (order ?s') then map_option (\<lambda>(w, it). (w, None)) (slots s k) else None)"
      if "k \<noteq> key" for k
      using that out[of k] d(1) ne
      by (auto simp: retarget_push_front_apply set_butlast_distinct)
    then show ?thesis
      using p o box_inv_put[OF assms(1) p] by (intro exI[of _ ?s']) simp
  next
    case False
    then have room: "length (order s) < cap s" by simp
    let ?s' = "s\<lparr>order := key # order s,
        slots := (retarget push_front_inval (slots s))(key \<mapsto> (v, Some 0))\<rparr>"
    have p: "put s key v = Inr ?s'"
      by (rule put_absent_room[OF assms(2) room])
    have o: "key # order s = take (cap s) (key # order s)"
      using room by simp
    have "slots ?s' k = (if k \<in> set (order ?s') then map_option (\<lambda>(w, it). (w, None)) (slots s k) else None)"
      if "k \<noteq> key" for k
      using that out[of k] by (auto simp: retarget_push_front_apply)
    then show ?thesis
      using p o box_inv_put[OF assms(1) p] by (intro exI[of _ ?s']) simp
  qed
qed

lemma put_all_fresh:
  assumes "box_inv s" "1 \<le> cap s" "length (order s) \<le> cap s"
    "distinct (map fst kvs)" "fst ` set kvs \<inter> set (order s) = {}"
  shows "\<exists>s'. put_all s kvs = Inr s' \<and> box_inv s' \<and> cap s' = cap s \<and>
           order s' = take (cap s) (rev (map fst kvs) @ order s) \<and>
           (\<forall>k \<in> set (order s').
              map_option fst (slots s' k) =
                (case map_of kvs k of Some v \<Rightarrow> Some v | None \<Rightarrow> map_option fst (slots s k)))"
  using assms
proof (induction kvs arbitrary: s)
  case Nil
  then show ?case by simp
next
  case (Cons kv kvs)
  obtain k v where kv: "kv = (k, v)" by (cases kv)
  from Cons.prems have fresh: "k \<notin> set (order s)" and rest: "k \<notin> fst ` set kvs"
    "distinct (map fst kvs)" "fst ` set kvs \<inter> set (order s) = {}"
    by (auto simp: kv)
  from Cons.prems(1) fresh have none: "slots s k = None"
    by (auto simp: box_inv_iff domIff)
  from put_fresh[OF Cons.prems(1) none Cons.prems(2,3), of v]
  obtain s1 where s1: "put s k v = Inr s1" "box_inv s1" "cap s1 = cap s"
      "order s1 = take (cap s) (k # order s)" "slots s1 k = Some (v, Some 0)"
      "\<And>k'. k' \<noteq> k \<Longrightarrow>
         slots s1 k' = (if k' \<in> set (order s1) then map_option (\<lambda>(w, it). (w, None)) (slots s k') else None)"
    by blast
  have sub: "set (order s1) \<subseteq> insert k (set (order s))"
    unfolding s1(4) using set_take_subset[of "cap s" "k # order s"] by simp
  have 1: "1 \<le> cap s1" "length (order s1) \<le> cap s1"
    using Cons.prems(2) by (simp_all add: s1)
  have 2: "fst ` set kvs \<inter> set (order s1) = {}"
    using sub rest by auto
  from Cons.IH[OF s1(2) 1 rest(2) 2]
  obtain s' where s': "put_all s1 kvs = Inr s'" "box_inv s'" "cap s' = cap s1"
      "order s' = take (cap s1) (rev (map fst kvs) @ order s1)"
      "\<And>k'. k' \<in> set (order s') \<Longrightarrow>
         map_option fst (slots s' k') =
           (case map_of kvs k' of Some v \<Rightarrow> Some v | None \<Rightarrow> map_option fst (slots s1 k'))"
    by blast
  have o: "order s' = take (cap s) (rev (map fst (kv # kvs)) @ order s)"
    unfolding s'(4) s1(3,4) by (simp add: kv take_append_take)
  have vals: "map_option fst (slots s' k') =
           (case map_of (kv # kvs) k' of Some v \<Rightarrow> Some v | None \<Rightarrow> map_option fst (slots s k'))"
    if k': "k' \<in> set (order s')" for k'
  proof (cases "k' = k")
    case True
    have "map_of kvs k = None"
      using rest(1) by (simp add: map_of_eq_None_iff)
    then show ?thesis
      using s'(5)[OF k'] True s1(5) by (simp add: kv)
  next
    case False
    show ?thesis
    proof (cases "map_of kvs k'")
      case None
      then have "k' \<notin> fst ` set kvs"
        by (simp add: map_of_eq_None_iff)
      moreover have "set (order s') \<subseteq> set (map fst kvs) \<union> set (order s1)"
        unfolding s'(4) using set_take_subset[of "cap s1" "rev (map fst kvs) @ order s1"] by auto
      ultimately have "k' \<in> set (order s1)"
        using k' by auto
      then have "map_option fst (slots s1 k') = map_option fst (slots s k')"
        using s1(6)[OF False] by (cases "slots s k'") auto
      then show ?thesis
        using s'(5)[OF k'] None False by (simp add: kv)
    next
      case (Some w)
      then show ?thesis
        using s'(5)[OF k'] False by (simp add: kv)
    qed
  qed
  show ?case
    using s1(1) s'(1,2,3) s1(3) o vals by (simp add: kv)
qed

section \<open>Iterators after a run of puts\<close>

lemma put_all_append:
  "put_all s (xs @ ys) = and_then (put_all s xs) (\<lambda>s1. put_all s1 ys)"
proof (induction xs arbitrary: s)
  case Nil
  show ?case by simp
next
  case (Cons kv xs)
  obtain k v where kv: "kv = (k, v)" by (cases kv)
  show ?case
    using Cons.IH by (cases "put s k v") (simp_all add: kv)
qed

lemma put_all_fresh_stale:
  assumes "box_inv s" "1 \<le> cap s" "length (order s) \<le> cap s"
    "distinct (map fst kvs)" "fst ` set kvs \<inter> set (order s) = {}"
    "kvs \<noteq> []" "put_all s kvs = Inr s'"
  shows "\<forall>k \<in> set (order s'). k \<noteq> fst (last kvs) \<longrightarrow> (\<exists>w. slots s' k = Some (w, None))"
proof -
  obtain xs kv where kvs: "kvs = xs @ [kv]"
    using assms(6) by (cases kvs rule: rev_cases) auto
  obtain key v where kv: "kv = (key, v)" by (cases kv)
  from assms(4,5) have xs: "distinct (map fst xs)" "fst ` set xs \<inter> set (order s) = {}"
    and key: "key \<notin> fst ` set xs" "key \<notin> set (order s)"
    by (auto simp: kvs kv)
  from put_all_fresh[OF assms(1,2,3) xs]
  obtain s1 where s1: "put_all s xs = Inr s1" "box_inv s1" "cap s1 = cap s"
      "order s1 = take (cap s) (rev (map fst xs) @ order s)"
    by blast
  have "set (order s1) \<subseteq> fst ` set xs \<union> set (order s)"
    unfolding s1(4) using set_take_subset[of "cap s" "rev (map fst xs) @ order s"] by auto
  with key have "key \<notin> set (order s1)"
    by auto
  with s1(2) have none: "slots s1 key = None"
    by (auto simp: box_inv_iff domIff)
  have 1: "1 \<le> cap s1" "length (order s1) \<le> cap s1"
    using assms(2) by (simp_all add: s1)
  from put_fresh[OF s1(2) none 1, of v]
  obtain s2 where s2: "put s1 key v = Inr s2"
      "\<And>k. k \<noteq> key \<Longrightarrow>
         slots s2 k = (if k \<in> set (order s2) then map_option (\<lambda>(w, it). (w, None)) (slots s1 k) else None)"
      "order s2 = take (cap s1) (key # order s1)"
    by blast
  have "s' = s2"
    using assms(7) s1(1) s2(1) by (simp add: kvs kv put_all_append)
  have "\<exists>w. slots s2 k = Some (w, None)" if k: "k \<in> set (order s2)" "k \<noteq> key" for k
  proof -
    have "k \<in> set (order s1)"
      using k set_take_subset[of "cap s1" "key # order s1"] by (auto simp: s2(3))
    with s1(2) have "k \<in> dom (slots s1)"
      by (simp add: box_inv_iff)
    then obtain y where "slots s1 k = Some y"
      by auto
    then obtain w it where "slots s1 k = Some (w, it)"
      by (cases y) auto
    then show ?thesis
      using s2(2)[OF k(2)] k(1) by simp
  qed
  then show ?thesis
    by (simp add: \<open>s' = s2\<close> kvs kv)
qed

lemma retarget_empty [simp]: "retarget f Map.empty = Map.empty"
  by (simp add: retarget_def)

lemma retarget_upd [simp]: "retarget f (m(k \<mapsto> (v, it))) = (retarget f m)(k \<mapsto> (v, f it))"
  by (auto simp: retarget_def fun_eq_iff)

lemma retarget_del [simp]: "retarget f (m(k := None)) = (retarget f m)(k := None)"
  by (auto simp: retarget_def fun_eq_iff)

lemma box_inv_hit_again:
  assumes "box_inv s" "get s key = Inr (Some v, s')"
  shows "get s' key = Inr (Some v, s') \<and> size_box s' = size_box s"
proof -
  from assms(2) obtain it where sl: "slots s key = Some (v, it)"
    by (auto simp: get_def split: option.splits sum.splits)
  then obtain i where it: "it = Some i"
    using assms(2) by (cases it) (auto simp: get_stale)
  have s': "s' = s\<lparr>order := key # take i (order s) @ drop (Suc i) (order s),
                  slots := (retarget push_front_inval (slots s))(key \<mapsto> (v, Some 0))\<rparr>"
    using get_hit[OF assms(1) sl[unfolded it]] assms(2) by simp
  from box_inv_get[OF assms] have inv': "box_inv s'" "length (order s') = length (order s)"
    by simp_all
  have sl': "slots s' key = Some (v, Some 0)"
    by (simp add: s')
  have "s'\<lparr>order := key # take 0 (order s') @ drop (Suc 0) (order s'),
            slots := (retarget push_front_inval (slots s'))(key \<mapsto> (v, Some 0))\<rparr> = s'"
    by (simp add: s')
  then have "get s' key = Inr (Some v, s')"
    using get_hit[OF inv'(1) sl'] by simp
  then show ?thesis
    using inv' assms(1) by (simp add: size_box_inv)
qed

text \<open>
  With a capacity of at least 2 the read of the first key in \<open>reread_first\<close> is not defined:
  the puts after the first have invalidated its iterator.
\<close>

lemma reread_first_faults:
  fixes kvs :: "('k \<times> 'v::default) list"
  assumes "2 \<le> C" "distinct (map fst kvs)" "length kvs = Suc C"
  shows "reread_first C kvs = Inl Invalid_iterator"
proof -
  let ?s0 = "LruBox C :: ('k, 'v) LruBox"
  let ?xs = "butlast kvs"
  have init: "cap ?s0 = C" "order ?s0 = []"
    by (simp_all add: LruBox_def)
  have len: "length ?xs = C"
    using assms(3) by simp
  have d: "distinct (map fst ?xs)"
    using assms(2) by (simp add: map_butlast distinct_butlast)
  have ne: "?xs \<noteq> []"
    using len assms(1) by (cases ?xs) auto
  have pre: "1 \<le> cap ?s0" "length (order ?s0) \<le> cap ?s0" "distinct (map fst ?xs)"
    "fst ` set ?xs \<inter> set (order ?s0) = {}" "?xs \<noteq> []"
    using assms(1) d ne by (simp_all add: init)
  have "\<exists>s'. put_all ?s0 ?xs = Inr s' \<and> box_inv s' \<and> cap s' = cap ?s0 \<and>
           order s' = take (cap ?s0) (rev (map fst ?xs) @ order ?s0) \<and>
           (\<forall>k \<in> set (order s').
              map_option fst (slots s' k) =
                (case map_of ?xs k of Some v \<Rightarrow> Some v | None \<Rightarrow> map_option fst (slots ?s0 k)))"
    by (rule put_all_fresh[OF box_inv_LruBox pre(1-4)])
  then obtain s where s: "put_all ?s0 ?xs = Inr s"
      "order s = take (cap ?s0) (rev (map fst ?xs) @ order ?s0)"
    by blast
  have o: "order s = rev (map fst ?xs)"
    using len by (simp add: s(2) init)
  obtain x ys where xs: "?xs = x # ys" "ys \<noteq> []"
    using len assms(1) by (cases ?xs; cases "tl ?xs") auto
  have hd: "hd kvs = x"
    using xs(1) by (cases kvs) (auto split: if_splits)
  have "fst x \<noteq> fst (last ys)"
    using d xs by auto
  then have "fst x \<noteq> fst (last ?xs)"
    using xs by simp
  moreover have "fst x \<in> set (order s)"
    by (simp add: o xs(1))
  ultimately obtain w where "slots s (fst x) = Some (w, None)"
    using put_all_fresh_stale[OF box_inv_LruBox pre s(1)] by blast
  then have "get s (fst (hd kvs)) = Inl Invalid_iterator"
    by (simp add: hd get_stale)
  then show ?thesis
    using s(1) by (simp add: reread_first_def)
qed

section \<open>The context loop as a prefix of resolutions\<close>

lemma reserve_fits: "0 \<le> b \<Longrightarrow> b < 2 ^ 31 \<Longrightarrow> \<not> string_max_size < reserve_request b"
  unfolding string_max_size_def reserve_request_def size_t_of_int_def
  by (simp add: nat_mult_distrib nat_mod_distrib)

lemma build_context_resolve_all:
  assumes "0 \<le> b" "b < 2 ^ 31"
  shows "build_context ids c b =
     and_then (resolve_all (take (Suc (nat (b div 40))) ids) c) (\<lambda>(ps, c').
       Inr (concat (map (\<lambda>p. p @ [CHR 0x0A]) (take (nat (b div 40)) ps)), c'))"
  using reserve_fits[OF assms] build_loop_resolve_all[OF assms(1), of ids c "[]"]
  by (simp add: build_context_def)

lemma resolve_all_fresh:
  assumes "box_inv c" "1 \<le> cap c" "length (order c) \<le> cap c"
    "distinct ids" "set ids \<inter> set (order c) = {}"
  shows "resolve_all ids c =
     and_then (put_all c (map (\<lambda>i. (i, fake_doc_text i)) ids)) (\<lambda>c'. Inr (map fake_doc_text ids, c'))"
  using assms
proof (induction ids arbitrary: c)
  case Nil
  show ?case by simp
next
  case (Cons a ids)
  from Cons.prems have fresh: "a \<notin> set (order c)" and rest: "distinct ids" "a \<notin> set ids"
    "set ids \<inter> set (order c) = {}"
    by auto
  from Cons.prems(1) fresh have none: "slots c a = None"
    by (auto simp: box_inv_iff domIff)
  from put_fresh[OF Cons.prems(1) none Cons.prems(2,3), of "fake_doc_text a"]
  obtain c1 where c1: "put c a (fake_doc_text a) = Inr c1" "box_inv c1" "cap c1 = cap c"
      "order c1 = take (cap c) (a # order c)"
    by blast
  have "set (order c1) \<subseteq> insert a (set (order c))"
    unfolding c1(4) using set_take_subset[of "cap c" "a # order c"] by simp
  with rest have 2: "set ids \<inter> set (order c1) = {}"
    by auto
  have 1: "1 \<le> cap c1" "length (order c1) \<le> cap c1"
    using Cons.prems(2) by (simp_all add: c1)
  show ?case
    using Cons.IH[OF c1(2) 1 rest(1) 2] c1(1)
    by (cases "put_all c1 (map (\<lambda>i. (i, fake_doc_text i)) ids)")
       (simp_all add: resolve_absent[OF none])
qed

lemma resolve_absent_stores:
  assumes "slots c doc_id = None" "resolve c doc_id = Inr (p, c')"
  shows "slots c' doc_id = Some (fake_doc_text doc_id, Some 0)"
  using assms
  by (auto simp: resolve_absent and_then_eq_Inr put_def evict_def Let_def split: if_splits)

lemma stop_index: "1 \<le> n \<Longrightarrow> nat ((40 * int n - 1) div 40) = n - 1"
  by (cases n) simp_all

section \<open>Capacity zero\<close>

text \<open>
  Claim C4.  On a cache constructed with capacity 0 every \<^verbatim>\<open>put\<close> is well-defined and leaves
  the cache empty.  The code does not do that: the cache is empty, \<^verbatim>\<open>order_.size() >= cap_\<close>
  is \<open>0 \<ge> 0\<close>, and the eviction block calls \<^verbatim>\<open>order_.back()\<close> and \<^verbatim>\<open>order_.pop_back()\<close> on an
  empty deque, which is undefined behaviour.  This is the first \<^verbatim>\<open>put\<close> on such a cache,
  whatever the key and the value.
\<close>

theorem put_capacity_zero_faults: "put (LruBox 0) key v = Inl Empty_deque"
  by (simp add: put_def LruBox_def evict_def)

section \<open>Recency\<close>

text \<open>
  Claim C2, first half, and what the code does by design in the second.  For every
  capacity \<open>C \<ge> 1\<close>, putting \<open>C + 1\<close> pairs with distinct keys into an empty cache of capacity
  \<open>C\<close> is defined, leaves \<open>C\<close> entries, and evicts exactly the first-inserted key: the
  other keys are kept with their values, most recent first.  When \<open>C = 1\<close> and the first
  key is read again before the second \<^verbatim>\<open>put\<close>, the \<^verbatim>\<open>get\<close> returns its value and the first key
  is evicted all the same, the final cache being the one reached without the \<^verbatim>\<open>get\<close>.
  (For \<open>C \<ge> 2\<close> that \<^verbatim>\<open>get\<close> is not defined, lemma \<open>reread_first_faults\<close>.)
\<close>

theorem lru_evicts_first_inserted:
  fixes kvs :: "('k \<times> 'v::default) list"
  assumes "1 \<le> C" "distinct (map fst kvs)" "length kvs = Suc C"
  shows "\<exists>s. put_all (LruBox C) kvs = Inr s \<and> size_box s = C \<and>
           order s = rev (map fst (tl kvs)) \<and>
           slots s (fst (hd kvs)) = None \<and>
           (\<forall>kv \<in> set (tl kvs). map_option fst (slots s (fst kv)) = Some (snd kv)) \<and>
           (C = 1 \<longrightarrow> reread_first C kvs = Inr (Some (snd (hd kvs)), s))"
proof -
  obtain kv rest where kvs: "kvs = kv # rest"
    using assms(3) by (cases kvs) auto
  have len: "length rest = C"
    using assms(3) by (simp add: kvs)
  let ?s0 = "LruBox C :: ('k, 'v) LruBox"
  have init: "cap ?s0 = C" "order ?s0 = []" "slots ?s0 = Map.empty"
    by (simp_all add: LruBox_def)
  have "\<exists>s'. put_all ?s0 kvs = Inr s' \<and> box_inv s' \<and> cap s' = cap ?s0 \<and>
           order s' = take (cap ?s0) (rev (map fst kvs) @ order ?s0) \<and>
           (\<forall>k \<in> set (order s').
              map_option fst (slots s' k) =
                (case map_of kvs k of Some v \<Rightarrow> Some v | None \<Rightarrow> map_option fst (slots ?s0 k)))"
    by (rule put_all_fresh[OF box_inv_LruBox]) (use assms(1,2) in \<open>simp_all add: init\<close>)
  then obtain s where s0: "put_all ?s0 kvs = Inr s" "box_inv s"
      "order s = take (cap ?s0) (rev (map fst kvs) @ order ?s0)"
      "\<forall>k \<in> set (order s).
         map_option fst (slots s k) =
           (case map_of kvs k of Some v \<Rightarrow> Some v | None \<Rightarrow> map_option fst (slots ?s0 k))"
    by blast
  have s: "put_all (LruBox C) kvs = Inr s" "box_inv s"
      "order s = take C (rev (map fst kvs))"
      "\<And>k w. k \<in> set (order s) \<Longrightarrow> map_of kvs k = Some w \<Longrightarrow>
         map_option fst (slots s k) = Some w"
    using s0 by (simp_all add: init)
  have o: "order s = rev (map fst rest)"
    using len by (simp add: s(3) kvs)
  have 1: "size_box s = C"
    using s(2) o len by (simp add: size_box_inv)
  have "fst kv \<notin> set (order s)"
    using assms(2) by (auto simp: o kvs)
  with s(2) have 2: "slots s (fst kv) = None"
    by (auto simp: box_inv_iff domIff)
  have 3: "map_option fst (slots s (fst x)) = Some (snd x)" if "x \<in> set rest" for x
  proof -
    have "fst x \<in> set (order s)"
      using that by (simp add: o)
    moreover have "(fst x, snd x) \<in> set kvs"
      using that by (simp add: kvs)
    then have "map_of kvs (fst x) = Some (snd x)"
      using assms(2) by (rule map_of_is_SomeI[rotated])
    ultimately show ?thesis
      by (rule s(4))
  qed
  have 4: "reread_first C kvs = Inr (Some (snd kv), s)" if "C = 1"
  proof -
    have "length rest = Suc 0"
      using len that by simp
    then obtain x where "rest = [x]"
      by (auto simp: length_Suc_conv)
    then obtain k2 v2 where rest: "rest = [(k2, v2)]"
      by (cases x) auto
    obtain k1 v1 where kv: "kv = (k1, v1)" by (cases kv)
    let ?s1 = "\<lparr>cap = 1, order = [k1], slots = [k1 \<mapsto> (v1, Some 0)]\<rparr>"
    have p1: "put (LruBox 1) k1 v1 = Inr ?s1"
      by (simp add: put_def LruBox_def)
    have g: "get ?s1 k1 = Inr (Some v1, ?s1)"
      using get_hit[of ?s1 k1 v1 0] by (simp add: box_inv_def)
    show ?thesis
      using s(1) p1 g by (auto simp: reread_first_def kvs rest kv that and_then_eq_Inr)
  qed
  show ?thesis
    using s(1) o 1 2 3 4 by (simp add: kvs)
qed

text \<open>The theorem at capacity 1 with the pairs \<open>(1, a)\<close> and \<open>(2, b)\<close>.\<close>

theorem lru_evicts_first_inserted_witness:
  "\<exists>s. put_all (LruBox 1) [(1::int, ''a''), (2, ''b'')] = Inr s \<and> size_box s = 1 \<and>
       order s = [2] \<and> slots s 1 = None \<and> map_option fst (slots s 2) = Some ''b'' \<and>
       reread_first 1 [(1::int, ''a''), (2, ''b'')] = Inr (Some ''a'', s)"
  using lru_evicts_first_inserted[of 1 "[(1::int, ''a''), (2, ''b'')]"] by simp

text \<open>
  Claim C2 as stated fails at capacity 1: after \<^verbatim>\<open>put(1, a)\<close>, \<^verbatim>\<open>get(1)\<close>, \<^verbatim>\<open>put(2, b)\<close> the
  cache holds key 2 only.  The first key was read just before the second \<^verbatim>\<open>put\<close> and is not
  retained.
\<close>

theorem reread_first_capacity_one:
  "reread_first 1 [(1::int, ''a''), (2, ''b'')] =
     Inr (Some ''a'', \<lparr>cap = 1, order = [2], slots = [2 \<mapsto> (''b'', Some 0)]\<rparr>)"
  by (simp add: reread_first_def put_def get_def touch_def LruBox_def evict_def Let_def
        set_iter_def erase_inval_def push_front_inval_def)

section \<open>Budget accounting\<close>

text \<open>
  Claim C3, for a budget that is not negative.  The assembler resolves the identifiers
  in order, up to and including the one at index \<open>b div 40\<close>, and appends the fragments of
  those before that index, in order, each followed by one newline: every fragment costs
  40, and the first one the counter cannot pay for is resolved but not appended, and
  ends the scan.  In particular, a budget of \<open>40 * n - 1\<close> for \<open>n \<ge> 1\<close> identifiers resolves
  all \<open>n\<close> and appends all fragments but the last.  On an empty cache of capacity at least
  1 and distinct identifiers the run is defined and the fragments are the texts of
  \<^verbatim>\<open>fake_doc_text\<close>.  The equations hold for faults as well: the assembler faults exactly when
  resolving that prefix does.
\<close>

theorem build_context_first_fit:
  assumes "0 \<le> b" "b < 2 ^ 31"
  shows "build_context ids c b =
           and_then (resolve_all (take (Suc (nat (b div 40))) ids) c) (\<lambda>(ps, c').
             Inr (concat (map (\<lambda>p. p @ [CHR 0x0A]) (take (nat (b div 40)) ps)), c')) \<and>
         (ids \<noteq> [] \<and> b = 40 * int (length ids) - 1 \<longrightarrow>
            build_context ids c b =
              and_then (resolve_all ids c) (\<lambda>(ps, c').
                Inr (concat (map (\<lambda>p. p @ [CHR 0x0A]) (butlast ps)), c'))) \<and>
         (1 \<le> cp \<and> distinct ids \<longrightarrow>
            (\<exists>c'. build_context ids (LruBox cp) b =
               Inr (concat (map (\<lambda>i. fake_doc_text i @ [CHR 0x0A]) (take (nat (b div 40)) ids)), c')))"
proof (intro conjI impI)
  let ?k = "nat (b div 40)"
  show eq: "build_context ids c b =
           and_then (resolve_all (take (Suc ?k) ids) c) (\<lambda>(ps, c').
             Inr (concat (map (\<lambda>p. p @ [CHR 0x0A]) (take ?k ps)), c'))" for c
    by (rule build_context_resolve_all[OF assms])
  show "build_context ids c b =
          and_then (resolve_all ids c) (\<lambda>(ps, c').
            Inr (concat (map (\<lambda>p. p @ [CHR 0x0A]) (butlast ps)), c'))"
    if h: "ids \<noteq> [] \<and> b = 40 * int (length ids) - 1"
  proof -
    from h have k: "?k = length ids - 1" and n: "1 \<le> length ids"
      using stop_index[of "length ids"] by (simp_all add: Suc_le_eq)
    then have t: "take (Suc ?k) ids = ids"
      by simp
    show ?thesis
    proof (cases "resolve_all ids c")
      case (Inl e)
      then show ?thesis by (simp add: eq t)
    next
      case (Inr r)
      obtain ps c' where r: "r = (ps, c')" by (cases r)
      from Inr r have "length ps = length ids"
        using resolve_all_length by simp
      then have "take ?k ps = butlast ps"
        by (simp add: k butlast_conv_take)
      then show ?thesis
        using Inr r by (simp add: eq t)
    qed
  qed
  show "\<exists>c'. build_context ids (LruBox cp) b =
               Inr (concat (map (\<lambda>i. fake_doc_text i @ [CHR 0x0A]) (take ?k ids)), c')"
    if h: "1 \<le> cp \<and> distinct ids"
  proof -
    let ?c = "LruBox cp :: (int, string) LruBox"
    let ?ids = "take (Suc ?k) ids"
    have init: "cap ?c = cp" "order ?c = []"
      by (simp_all add: LruBox_def)
    have d: "distinct ?ids"
      using h by simp
    have r: "resolve_all ?ids ?c =
        and_then (put_all ?c (map (\<lambda>i. (i, fake_doc_text i)) ?ids)) (\<lambda>c'. Inr (map fake_doc_text ?ids, c'))"
      by (rule resolve_all_fresh[OF box_inv_LruBox]) (use h d in \<open>simp_all add: init\<close>)
    have "\<exists>s'. put_all ?c (map (\<lambda>i. (i, fake_doc_text i)) ?ids) = Inr s' \<and> box_inv s' \<and> cap s' = cap ?c \<and>
           order s' = take (cap ?c) (rev (map fst (map (\<lambda>i. (i, fake_doc_text i)) ?ids)) @ order ?c) \<and>
           (\<forall>k \<in> set (order s').
              map_option fst (slots s' k) =
                (case map_of (map (\<lambda>i. (i, fake_doc_text i)) ?ids) k of Some v \<Rightarrow> Some v
                 | None \<Rightarrow> map_option fst (slots ?c k)))"
      by (rule put_all_fresh[OF box_inv_LruBox]) (use h d in \<open>simp_all add: init comp_def\<close>)
    then obtain s' where "put_all ?c (map (\<lambda>i. (i, fake_doc_text i)) ?ids) = Inr s'"
      by blast
    then have "resolve_all ?ids ?c = Inr (map fake_doc_text ?ids, s')"
      by (simp add: r)
    moreover have "take ?k (map fake_doc_text ?ids) = map fake_doc_text (take ?k ids)"
      by (simp add: take_map min_def)
    ultimately have "build_context ids ?c b =
        Inr (concat (map (\<lambda>p. p @ [CHR 0x0A]) (map fake_doc_text (take ?k ids))), s')"
      by (simp add: eq)
    then show ?thesis
      by (simp add: comp_def)
  qed
qed

text \<open>
  Two fragments computed, to show the text a fragment has.
\<close>

lemma fake_doc_text_3: "fake_doc_text 3 = ''Doc#3 :: A short block of evidence text used for grounding.''"
  by (simp add: fake_doc_text_def to_string_def nat_digits.simps digit_def)

lemma fake_doc_text_120000: "fake_doc_text 120000 = ''Doc#120000 :: A short block of evidence text used for grounding.''"
  by (simp add: fake_doc_text_def to_string_def nat_digits.simps digit_def)

text \<open>The theorem for three identifiers and the budget \<open>40 * 3 - 1\<close>, on the empty cache of \<^verbatim>\<open>main\<close>.\<close>

theorem build_context_first_fit_witness:
  "build_context [3, 5, 8] (LruBox 4096) 119 =
     and_then (resolve_all [3, 5, 8] (LruBox 4096)) (\<lambda>(ps, c').
       Inr (concat (map (\<lambda>p. p @ [CHR 0x0A]) (butlast ps)), c')) \<and>
   (\<exists>c'. build_context [3, 5, 8] (LruBox 4096) 119 =
      Inr (fake_doc_text 3 @ [CHR 0x0A] @ fake_doc_text 5 @ [CHR 0x0A], c'))"
proof -
  have h: "(0::int) \<le> 119" "(119::int) < 2 ^ 31"
    by simp_all
  note t = build_context_first_fit[OF h, of "[3, 5, 8]" "LruBox 4096" 4096]
  have a: "[3, 5, 8] \<noteq> [] \<and> (119::int) = 40 * int (length [3, 5, 8::int]) - 1"
    by simp
  have b: "1 \<le> (4096::nat) \<and> distinct [3, 5, 8::int]"
    by simp
  from t a have 1: "build_context [3, 5, 8] (LruBox 4096) 119 =
     and_then (resolve_all [3, 5, 8] (LruBox 4096)) (\<lambda>(ps, c').
       Inr (concat (map (\<lambda>p. p @ [CHR 0x0A]) (butlast ps)), c'))"
    by blast
  from t b obtain c' where "build_context [3, 5, 8] (LruBox 4096) 119 =
      Inr (concat (map (\<lambda>i. fake_doc_text i @ [CHR 0x0A]) (take (nat (119 div 40)) [3, 5, 8])), c')"
    by blast
  then have "build_context [3, 5, 8] (LruBox 4096) 119 =
      Inr (fake_doc_text 3 @ [CHR 0x0A] @ fake_doc_text 5 @ [CHR 0x0A], c')"
    by simp
  then have 2: "\<exists>c'. build_context [3, 5, 8] (LruBox 4096) 119 =
      Inr (fake_doc_text 3 @ [CHR 0x0A] @ fake_doc_text 5 @ [CHR 0x0A], c')"
    by (rule exI)
  show ?thesis
    by (rule conjI[OF 1 2])
qed

text \<open>
  Claim C3 as stated, for every token budget, fails at the instance \<open>n = 0\<close> of its last
  part: no identifier and the budget \<open>40 * 0 - 1\<close>.  The cast of \<open>-1\<close> to \<^verbatim>\<open>size_t\<close> times 4 is
  \<open>2^64 - 4\<close>, \<^verbatim>\<open>stitched.reserve\<close> throws \<^verbatim>\<open>std::length_error\<close>, and no text is returned.
\<close>

theorem build_context_negative_budget_throws:
  "build_context [] (LruBox 4096) (- 1) = Inl Length_error"
  by (simp add: build_context_def reserve_request_def size_t_of_int_def string_max_size_def)

section \<open>What the context loop does to the fragment cache\<close>

text \<open>
  Claim C10, for a budget that is not negative.  The identifiers after index \<open>b div 40\<close>
  play no part: the result and the cache are those of the list cut after that index.
  The effect on the cache (or the fault) is that of resolving the identifiers up to and
  including that index, in order.  When the run returns and there is an identifier at
  that index, it was resolved last, it is in the cache afterwards, freshly inserted with
  the text of \<^verbatim>\<open>fake_doc_text\<close> if it was absent, and the output holds the fragments of the
  identifiers before it only.  When the run returns on a cache that satisfies the
  invariant, the keys of the cache afterwards are among those it had and the identifiers
  up to that index: an identifier after the stop that was not cached is not cached.
\<close>

theorem build_context_stops_resolving:
  assumes "0 \<le> b" "b < 2 ^ 31"
  shows "build_context ids c b = build_context (take (Suc (nat (b div 40))) ids) c b \<and>
         map_sum id snd (build_context ids c b) =
           map_sum id snd (resolve_all (take (Suc (nat (b div 40))) ids) c) \<and>
         (nat (b div 40) < length ids \<and> build_context ids c b = Inr (out, c') \<longrightarrow>
            (\<exists>ps c1 p.
               resolve_all (take (nat (b div 40)) ids) c = Inr (ps, c1) \<and>
               resolve c1 (ids ! nat (b div 40)) = Inr (p, c') \<and>
               out = concat (map (\<lambda>p. p @ [CHR 0x0A]) ps) \<and>
               slots c' (ids ! nat (b div 40)) \<noteq> None \<and>
               (slots c1 (ids ! nat (b div 40)) = None \<longrightarrow>
                  slots c' (ids ! nat (b div 40)) = Some (fake_doc_text (ids ! nat (b div 40)), Some 0)))) \<and>
         (box_inv c \<and> build_context ids c b = Inr (out, c') \<longrightarrow>
            box_inv c' \<and> dom (slots c') \<subseteq> dom (slots c) \<union> set (take (Suc (nat (b div 40))) ids))"
proof (intro conjI impI)
  let ?k = "nat (b div 40)"
  note eq = build_context_resolve_all[OF assms]
  show "build_context ids c b = build_context (take (Suc ?k) ids) c b"
    by (simp add: eq[of ids] eq[of "take (Suc ?k) ids"])
  show "map_sum id snd (build_context ids c b) = map_sum id snd (resolve_all (take (Suc ?k) ids) c)"
    by (cases "resolve_all (take (Suc ?k) ids) c") (auto simp: eq)
  show "\<exists>ps c1 p.
          resolve_all (take ?k ids) c = Inr (ps, c1) \<and>
          resolve c1 (ids ! ?k) = Inr (p, c') \<and>
          out = concat (map (\<lambda>p. p @ [CHR 0x0A]) ps) \<and>
          slots c' (ids ! ?k) \<noteq> None \<and>
          (slots c1 (ids ! ?k) = None \<longrightarrow> slots c' (ids ! ?k) = Some (fake_doc_text (ids ! ?k), Some 0))"
    if h: "?k < length ids \<and> build_context ids c b = Inr (out, c')"
  proof -
    from h have t: "take (Suc ?k) ids = take ?k ids @ [ids ! ?k]"
      by (simp add: take_Suc_conv_app_nth)
    from h obtain qs where qs: "resolve_all (take (Suc ?k) ids) c = Inr (qs, c')"
        "out = concat (map (\<lambda>p. p @ [CHR 0x0A]) (take ?k qs))"
      by (auto simp: eq and_then_eq_Inr)
    from qs(1) obtain ps c1 p where 1: "resolve_all (take ?k ids) c = Inr (ps, c1)"
        "resolve c1 (ids ! ?k) = Inr (p, c')" "qs = ps @ [p]"
      unfolding t resolve_all_append by (auto simp: and_then_eq_Inr)
    from resolve_all_length[OF 1(1)] h have "length ps = ?k"
      by simp
    then have 2: "out = concat (map (\<lambda>p. p @ [CHR 0x0A]) ps)"
      by (simp add: qs(2) 1(3))
    have 3: "slots c' (ids ! ?k) \<noteq> None"
      by (rule resolve_stores[OF 1(2)])
    have 4: "slots c1 (ids ! ?k) = None \<longrightarrow>
        slots c' (ids ! ?k) = Some (fake_doc_text (ids ! ?k), Some 0)"
      using resolve_absent_stores[OF _ 1(2)] by simp
    have "resolve_all (take ?k ids) c = Inr (ps, c1) \<and>
          resolve c1 (ids ! ?k) = Inr (p, c') \<and>
          out = concat (map (\<lambda>p. p @ [CHR 0x0A]) ps) \<and>
          slots c' (ids ! ?k) \<noteq> None \<and>
          (slots c1 (ids ! ?k) = None \<longrightarrow> slots c' (ids ! ?k) = Some (fake_doc_text (ids ! ?k), Some 0))"
      using 1(1,2) 2 3 4 by simp
    then show ?thesis
      by (intro exI)
  qed
  assume h: "box_inv c \<and> build_context ids c b = Inr (out, c')"
  then obtain qs where qs: "resolve_all (take (Suc ?k) ids) c = Inr (qs, c')"
    by (auto simp: eq and_then_eq_Inr)
  from resolve_all_inv[OF _ qs] h
  show "box_inv c'" "dom (slots c') \<subseteq> dom (slots c) \<union> set (take (Suc ?k) ids)"
    by simp_all
qed

text \<open>
  The theorem for four identifiers and the budget 100: the third identifier is resolved
  and inserted, the output holds two fragments, and the fourth identifier is not in the
  cache.
\<close>

lemma resolve_three:
  "resolve_all [3, 5] (LruBox 4096) =
     Inr ([fake_doc_text 3, fake_doc_text 5],
          \<lparr>cap = 4096, order = [5, 3],
           slots = [3 \<mapsto> (fake_doc_text 3, None), 5 \<mapsto> (fake_doc_text 5, Some 0)]\<rparr>)"
  by (simp add: resolve_def get_def put_def LruBox_def push_front_inval_def)

theorem build_context_stops_resolving_witness:
  "build_context [3, 5, 8, 13] (LruBox 4096) 100 = build_context [3, 5, 8] (LruBox 4096) 100 \<and>
   build_context [3, 5, 8, 13] (LruBox 4096) 100 =
     Inr (fake_doc_text 3 @ [CHR 0x0A] @ fake_doc_text 5 @ [CHR 0x0A],
          \<lparr>cap = 4096, order = [8, 5, 3],
           slots = [3 \<mapsto> (fake_doc_text 3, None), 5 \<mapsto> (fake_doc_text 5, None),
                    8 \<mapsto> (fake_doc_text 8, Some 0)]\<rparr>) \<and>
   (\<exists>ps c1 p.
      resolve_all [3, 5] (LruBox 4096) = Inr (ps, c1) \<and>
      resolve c1 8 =
        Inr (p, \<lparr>cap = 4096, order = [8, 5, 3],
                 slots = [3 \<mapsto> (fake_doc_text 3, None), 5 \<mapsto> (fake_doc_text 5, None),
                          8 \<mapsto> (fake_doc_text 8, Some 0)]\<rparr>) \<and>
      slots c1 8 = None) \<and>
   dom [3 \<mapsto> (fake_doc_text 3, None), 5 \<mapsto> (fake_doc_text 5, None), 8 \<mapsto> (fake_doc_text 8, Some 0)]
     \<subseteq> {3, 5, 8 :: int}"
proof -
  let ?c1 = "\<lparr>cap = 4096, order = [5, 3],
           slots = [3 \<mapsto> (fake_doc_text 3, None), 5 \<mapsto> (fake_doc_text 5, Some 0)]\<rparr>"
  let ?c' = "\<lparr>cap = 4096, order = [8, 5, 3],
           slots = [3 \<mapsto> (fake_doc_text 3, None), 5 \<mapsto> (fake_doc_text 5, None),
                    8 \<mapsto> (fake_doc_text 8, Some 0)]\<rparr>"
  let ?out = "fake_doc_text 3 @ [CHR 0x0A] @ fake_doc_text 5 @ [CHR 0x0A]"
  have h: "(0::int) \<le> 100" "(100::int) < 2 ^ 31"
    by simp_all
  have k: "nat ((100::int) div 40) = 2"
    by simp
  note t = build_context_stops_resolving[OF h, of "[3, 5, 8, 13]" "LruBox 4096" ?out ?c', unfolded k]
  have 1: "build_context [3, 5, 8, 13] (LruBox 4096) 100 = build_context [3, 5, 8] (LruBox 4096) 100"
    using t by simp
  have r: "resolve_all [3, 5, 8] (LruBox 4096) =
      Inr ([fake_doc_text 3, fake_doc_text 5, fake_doc_text 8], ?c')"
    by (simp add: resolve_def get_def put_def LruBox_def push_front_inval_def)
  have 2: "build_context [3, 5, 8, 13] (LruBox 4096) 100 = Inr (?out, ?c')"
    using build_context_resolve_all[OF h, of "[3, 5, 8, 13]" "LruBox 4096"] r by (simp add: k)
  from t 2 obtain ps c1 p where 3: "resolve_all (take 2 [3, 5, 8, 13]) (LruBox 4096) = Inr (ps, c1)"
      "resolve c1 ([3, 5, 8, 13] ! 2) = Inr (p, ?c')"
    by auto
  have tk: "take 2 [3, 5, 8, 13::int] = [3, 5]" "[3, 5, 8, 13::int] ! 2 = 8"
    by simp_all
  note 3 = 3[unfolded tk]
  from 3(1) have "c1 = ?c1"
    unfolding resolve_three by simp
  then have "slots c1 8 = None"
    by simp
  with 3 have 4: "\<exists>ps c1 p.
      resolve_all [3, 5] (LruBox 4096) = Inr (ps, c1) \<and> resolve c1 8 = Inr (p, ?c') \<and> slots c1 8 = None"
    by auto
  have "box_inv (LruBox 4096 :: (int, string) LruBox)"
    by (rule box_inv_LruBox)
  with t 2 have "dom (slots ?c') \<subseteq> dom (slots (LruBox 4096 :: (int, string) LruBox)) \<union>
      set (take (Suc 2) [3, 5, 8, 13])"
    by blast
  then have 5: "dom [3 \<mapsto> (fake_doc_text 3, None), 5 \<mapsto> (fake_doc_text 5, None),
      8 \<mapsto> (fake_doc_text 8, Some 0)] \<subseteq> {3, 5, 8 :: int}"
    by (simp add: LruBox_def)
  from 1 2 4 5 show ?thesis
    by (intro conjI)
qed

text \<open>
  Claim C10 as stated, for every token budget, fails for a negative one: with the single
  identifier 7 and the budget \<open>-1\<close> the claim has 7 fetched and inserted into the cache,
  and the code throws in \<^verbatim>\<open>reserve\<close> before the loop.
\<close>

theorem build_context_negative_budget_resolves_nothing:
  "build_context [7] (LruBox 4096) (- 1) = Inl Length_error"
  by (simp add: build_context_def reserve_request_def size_t_of_int_def string_max_size_def)

section \<open>The capacity bound\<close>

text \<open>
  Claim C1.  For every capacity and every sequence of puts the cache holds at most as
  many entries as its capacity after each put.  Lemma \<open>put_all_inv\<close> above is the part of
  it the code keeps: a run of puts that returns leaves at most \<open>cap\<close> entries.  Not every
  run returns.  With capacity 0 the first put is undefined (claim C4).  With capacity 2,
  \<^verbatim>\<open>put(1, a)\<close>, \<^verbatim>\<open>put(2, b)\<close>, \<^verbatim>\<open>put(1, c)\<close>: the third put finds key 1 and calls \<^verbatim>\<open>touch\<close> with
  the iterator stored by the first, which \<^verbatim>\<open>order_.push_front(2)\<close> has invalidated.
\<close>

theorem put_all_faults:
  "put_all (LruBox 0) [(1::int, ''a'')] = Inl Empty_deque \<and>
   put_all (LruBox 2) [(1::int, ''a''), (2, ''b''), (1, ''c'')] = Inl Invalid_iterator"
  by (simp add: put_def LruBox_def evict_def push_front_inval_def)

section \<open>Reading a key that is not the most recent one\<close>

lemma put_leaves_others_stale:
  assumes "box_inv s" "put s key v = Inr s'" "k \<noteq> key"
  shows "slots s' k \<noteq> Some (w, Some i)"
proof (cases "slots s key")
  case None
  show ?thesis
  proof (cases "cap s \<le> length (order s)")
    case True
    have ne: "order s \<noteq> []"
      using put_absent_empty_full[OF None True] assms(2) by auto
    show ?thesis
      using put_absent_full[OF None True ne, of v] assms(2,3) by auto
  next
    case False
    then have room: "length (order s) < cap s" by simp
    show ?thesis
      using put_absent_room[OF None room, of v] assms(2,3) by auto
  qed
next
  case (Some a)
  obtain v0 it where a: "a = (v0, it)" by (cases a)
  show ?thesis
  proof (cases it)
    case None
    then show ?thesis using assms Some a by (simp add: put_stale)
  next
    case (Some j)
    have sl: "slots s key = Some (v0, Some j)"
      using \<open>slots s key = Some a\<close> a Some by simp
    show ?thesis
      using put_present[OF assms(1) sl, of v] assms(2,3) by auto
  qed
qed

lemma get_leaves_others_stale:
  assumes "box_inv s" "get s key = Inr (Some v, s')" "k \<noteq> key"
  shows "slots s' k \<noteq> Some (w, Some i)"
proof -
  from assms(2) obtain it where sl: "slots s key = Some (v, it)"
    by (auto simp: get_def split: option.splits sum.splits)
  then obtain j where it: "it = Some j"
    using assms(2) by (cases it) (auto simp: get_stale)
  show ?thesis
    using get_hit[OF assms(1) sl[unfolded it]] assms(2,3) by auto
qed

text \<open>
  Claim C8.  Repeated \<^verbatim>\<open>get\<close> of a present key returns the same value and keeps the size;
  \<^verbatim>\<open>get\<close> of an absent key returns nothing and changes nothing.  The second is lemma
  \<open>get_absent\<close>, and a \<^verbatim>\<open>get\<close> that has returned a value returns it again (lemma
  \<open>box_inv_hit_again\<close>).  The first \<^verbatim>\<open>get\<close> of a present key is not defined in general:
  after a \<^verbatim>\<open>put\<close>, or a \<^verbatim>\<open>get\<close> that found its key, every other key in the cache has an
  invalidated iterator (\<^verbatim>\<open>push_front\<close> invalidates all iterators of a deque), and \<^verbatim>\<open>get\<close>
  of such a key passes that iterator to \<^verbatim>\<open>order_.erase\<close>.
\<close>

theorem get_of_older_key_faults:
  assumes "box_inv s" "put s key v = Inr s' \<or> get s key = Inr (Some v, s')"
    "key' \<noteq> key" "slots s' key' \<noteq> None"
  shows "get s' key' = Inl Invalid_iterator"
proof -
  from assms(4) obtain w it where sl: "slots s' key' = Some (w, it)"
    by (cases "slots s' key'") auto
  have "it \<noteq> Some i" for i
    using assms(1,2,3) sl put_leaves_others_stale[of s key v s' key' w i]
      get_leaves_others_stale[of s key v s' key' w i]
    by auto
  then have "it = None"
    by (cases it) auto
  then show ?thesis
    using sl by (simp add: get_stale)
qed

text \<open>The theorem after \<^verbatim>\<open>put(1, a)\<close>, \<^verbatim>\<open>put(2, b)\<close>, \<^verbatim>\<open>put(3, c)\<close> on a cache of capacity 3, for \<^verbatim>\<open>get(2)\<close>.\<close>

theorem get_of_older_key_faults_witness:
  "put_all (LruBox 3) [(1::int, ''a''), (2, ''b'')] =
     Inr \<lparr>cap = 3, order = [2, 1], slots = [1 \<mapsto> (''a'', None), 2 \<mapsto> (''b'', Some 0)]\<rparr> \<and>
   box_inv \<lparr>cap = 3, order = [2, 1::int], slots = [1 \<mapsto> (''a'', None), 2 \<mapsto> (''b'', Some 0)]\<rparr> \<and>
   put \<lparr>cap = 3, order = [2, 1::int], slots = [1 \<mapsto> (''a'', None), 2 \<mapsto> (''b'', Some 0)]\<rparr> 3 ''c'' =
     Inr \<lparr>cap = 3, order = [3, 2, 1],
          slots = [1 \<mapsto> (''a'', None), 2 \<mapsto> (''b'', None), 3 \<mapsto> (''c'', Some 0)]\<rparr> \<and>
   get \<lparr>cap = 3, order = [3, 2, 1::int],
        slots = [1 \<mapsto> (''a'', None), 2 \<mapsto> (''b'', None), 3 \<mapsto> (''c'', Some 0)]\<rparr> 2 =
     Inl Invalid_iterator"
proof -
  let ?s2 = "\<lparr>cap = 3, order = [2, 1::int], slots = [1 \<mapsto> (''a'', None), 2 \<mapsto> (''b'', Some 0)]\<rparr>"
  let ?s3 = "\<lparr>cap = 3, order = [3, 2, 1::int],
          slots = [1 \<mapsto> (''a'', None), 2 \<mapsto> (''b'', None), 3 \<mapsto> (''c'', Some 0)]\<rparr>"
  have 1: "put_all (LruBox 3) [(1::int, ''a''), (2, ''b'')] = Inr ?s2"
    by (simp add: put_def LruBox_def push_front_inval_def)
  have 2: "box_inv ?s2"
    by (simp add: box_inv_def)
  have 3: "put ?s2 3 ''c'' = Inr ?s3"
    by (simp add: put_def push_front_inval_def)
  have 4: "(2::int) \<noteq> 3" "slots ?s3 2 \<noteq> None"
    by simp_all
  have 5: "get ?s3 2 = Inl Invalid_iterator"
    by (rule get_of_older_key_faults[OF 2 disjI1[OF 3] 4])
  show ?thesis
    using 1 2 3 5 by (intro conjI)
qed

section \<open>Retrieval is deterministic and ascending\<close>

lemma fake_retrieval_distinct:
  assumes "fake_retrieval draws q k = Inr ids"
  shows "sorted_wrt (<) ids" "distinct ids"
proof -
  have s: "sorted xs \<Longrightarrow> sorted_wrt (<) (remdups_adj xs)" for xs :: "int list"
    by (induction xs rule: remdups_adj.induct) (auto simp: less_le)
  from assms have "ids = remdups_adj (sort (map (draws q) [0..<nat k]))"
    by (auto simp: fake_retrieval_def split: if_splits)
  then show "sorted_wrt (<) ids"
    using s[of "sort (map (draws q) [0..<nat k])"] by simp
  then show "distinct ids"
    by (simp add: strict_sorted_iff)
qed

text \<open>
  Claim C6.  Two calls of the retrieval collaborator with the same text and the same
  size return the same result, and every sequence returned is strictly ascending, hence
  without duplicates.  A sequence is returned whenever the size is not negative.
\<close>

theorem fake_retrieval_deterministic_ascending:
  "(q = q' \<and> k = k' \<longrightarrow> fake_retrieval draws q k = fake_retrieval draws q' k') \<and>
   (fake_retrieval draws q k = Inr hits \<longrightarrow> sorted_wrt (<) hits \<and> distinct hits) \<and>
   (0 \<le> k \<longrightarrow> (\<exists>hits. fake_retrieval draws q k = Inr hits))"
  using fake_retrieval_distinct[of draws q k hits]
  by (auto simp: fake_retrieval_def)

text \<open>The theorem for ten draws with repetitions.\<close>

theorem fake_retrieval_deterministic_ascending_witness:
  "fake_retrieval (\<lambda>q i. [17, 4, 17, 250, 93, 4, 1999, 61, 120000, 8] ! i) ''what is rag latency?'' 10 =
     Inr [4, 8, 17, 61, 93, 250, 1999, 120000] \<and>
   sorted_wrt (<) [4, 8, 17, 61, 93, 250, 1999, 120000 :: int] \<and>
   distinct [4, 8, 17, 61, 93, 250, 1999, 120000 :: int]"
proof -
  let ?d = "\<lambda>(q::string) i. [17, 4, 17, 250, 93, 4, 1999, 61, 120000, 8 :: int] ! i"
  have 1: "fake_retrieval ?d ''what is rag latency?'' 10 = Inr [4, 8, 17, 61, 93, 250, 1999, 120000]"
    by (simp add: fake_retrieval_def upt_conv_Cons)
  from fake_retrieval_deterministic_ascending[of "''what is rag latency?''" "''what is rag latency?''"
      10 10 ?d "[4, 8, 17, 61, 93, 250, 1999, 120000]"] 1
  have "sorted_wrt (<) [4, 8, 17, 61, 93, 250, 1999, 120000 :: int] \<and>
        distinct [4, 8, 17, 61, 93, 250, 1999, 120000 :: int]"
    by blast
  with 1 show ?thesis
    by (intro conjI) auto
qed

section \<open>The knob thresholds\<close>

text \<open>
  Claim C7.  The result-set size is 6 and cheap mode is on when the recent generation
  time is greater than the budget times 0.55, else 10 and off; the batch size is 16 when
  the recent retrieval time is greater than the budget times 0.25, else 8.  Each of the
  two tests decides its own fields only.  Product and comparison are those of \<^verbatim>\<open>double\<close>.
\<close>

theorem pick_knobs_thresholds:
  "pick_knobs D budget_ms recent_retrieval_ms recent_gen_ms =
     \<lparr>top_k = (if dgreater D recent_gen_ms (dmul D budget_ms (lit_0_55 D)) then 6 else 10),
      batch = (if dgreater D recent_retrieval_ms (dmul D budget_ms (lit_0_25 D)) then 16 else 8),
      cheap_mode = dgreater D recent_gen_ms (dmul D budget_ms (lit_0_55 D))\<rparr> \<and>
   top_k (pick_knobs D budget_ms recent_retrieval_ms recent_gen_ms) =
     top_k (pick_knobs D budget_ms other_retrieval_ms recent_gen_ms) \<and>
   cheap_mode (pick_knobs D budget_ms recent_retrieval_ms recent_gen_ms) =
     cheap_mode (pick_knobs D budget_ms other_retrieval_ms recent_gen_ms) \<and>
   batch (pick_knobs D budget_ms recent_retrieval_ms recent_gen_ms) =
     batch (pick_knobs D budget_ms recent_retrieval_ms other_gen_ms)"
  by (simp add: pick_knobs_def default_knobs_def Let_def)

section \<open>Construction\<close>

text \<open>
  Claim C9, as the code has it.  The constructor takes a \<^verbatim>\<open>size_t\<close> and has no check: it
  never fails.  For every \<^verbatim>\<open>int\<close> argument the result is the empty cache whose capacity is
  the argument modulo \<open>2^64\<close>.
\<close>

theorem LruBox_of_int_never_fails:
  "\<exists>s. LruBox_of_int c = Inr s \<and> cap s = nat (c mod 2 ^ 64) \<and> order s = [] \<and>
       slots s = Map.empty \<and> size_box s = 0"
  by (simp add: LruBox_of_int_def LruBox_def size_t_of_int_def size_box_def)

text \<open>
  Claim C9 as stated fails at \<open>-1\<close>: construction succeeds, with capacity \<open>2^64 - 1\<close>, and
  the cache is usable.
\<close>

theorem LruBox_of_negative_int:
  "LruBox_of_int (- 1) = Inr (LruBox 18446744073709551615 :: (int, string) LruBox) \<and>
   put (LruBox 18446744073709551615) (1::int) ''a'' =
     Inr \<lparr>cap = 18446744073709551615, order = [1], slots = [1 \<mapsto> (''a'', Some 0)]\<rparr>"
  by (simp add: LruBox_of_int_def size_t_of_int_def put_def LruBox_def)

section \<open>The same request twice\<close>

text \<open>
  Claim C5.  Serving the same text twice in a row gives \<^verbatim>\<open>cache_hit\<close> false, then true, with
  the same identifiers.  The first request does return, with \<^verbatim>\<open>cache_hit\<close> false, and the
  lookup the second request starts with finds the identifiers the first one stored.  The
  second request does not get further than its context: the first request has put its
  identifiers into the fragment cache one after the other, every \<^verbatim>\<open>push_front\<close> has
  invalidated the iterators stored before it, and the second request's \<^verbatim>\<open>block_cache.get\<close>
  of the first identifier passes such an iterator to \<^verbatim>\<open>touch\<close>.  This is so on fresh caches,
  as in \<^verbatim>\<open>main\<close>, whenever the retrieval returns at least two identifiers and the fragment
  cache can hold them all.
\<close>

theorem serve_same_text_twice_faults:
  assumes "1 \<le> rcap" "fake_retrieval draws q (top_k K) = Inr ids" "2 \<le> length ids"
    "length ids \<le> bcap"
  shows "\<exists>r1. serve_one draws q (LruBox rcap) (LruBox bcap) K = Inr r1 \<and>
           cache_hit (timings r1) = False \<and> doc_ids_used r1 = ids \<and>
           get (retr_cache_after r1) q = Inr (Some ids, retr_cache_after r1) \<and>
           serve_one draws q (retr_cache_after r1) (block_cache_after r1) K = Inl Invalid_iterator \<and>
           serve_twice draws q (LruBox rcap) (LruBox bcap) K = Inl Invalid_iterator"
proof -
  define b :: int where "b = (if cheap_mode K then 220 else 320)"
  define k where "k = nat (b div 40)"
  have b: "0 \<le> b" "b < 2 ^ 31" and k: "5 \<le> k"
    by (simp_all add: b_def k_def)
  let ?ids = "take (Suc k) ids"
  let ?kvs = "map (\<lambda>i. (i, fake_doc_text i)) ?ids"
  let ?rc0 = "LruBox rcap :: (string, int list) LruBox"
  let ?bc0 = "LruBox bcap :: (int, string) LruBox"
  let ?rc2 = "\<lparr>cap = rcap, order = [q], slots = [q \<mapsto> (ids, Some 0)]\<rparr>"
  have d: "distinct ?ids"
    using fake_retrieval_distinct(2)[OF assms(2)] by simp
  have len: "2 \<le> length ?ids" "length ?ids \<le> bcap"
    using assms(3,4) k by simp_all
  have init: "cap ?bc0 = bcap" "order ?bc0 = []"
    by (simp_all add: LruBox_def)
  have g0: "get ?rc0 q = Inr (None, ?rc0)"
    by (simp add: get_def LruBox_def)
  have p0: "put ?rc0 q ids = Inr ?rc2"
    using assms(1) by (simp add: put_def LruBox_def)
  have bcap: "1 \<le> bcap"
    using assms(3,4) by linarith
  have ne: "?ids \<noteq> []"
    using len(1) by auto
  have pre: "1 \<le> cap ?bc0" "length (order ?bc0) \<le> cap ?bc0" "distinct (map fst ?kvs)"
    "fst ` set ?kvs \<inter> set (order ?bc0) = {}" "?kvs \<noteq> []"
    using d bcap ne by (simp_all add: init comp_def)
  have ra: "resolve_all ?ids ?bc0 = and_then (put_all ?bc0 ?kvs) (\<lambda>c'. Inr (map fake_doc_text ?ids, c'))"
    by (rule resolve_all_fresh[OF box_inv_LruBox pre(1,2) d]) (simp add: init)
  have "\<exists>s'. put_all ?bc0 ?kvs = Inr s' \<and> box_inv s' \<and> cap s' = cap ?bc0 \<and>
           order s' = take (cap ?bc0) (rev (map fst ?kvs) @ order ?bc0) \<and>
           (\<forall>k \<in> set (order s').
              map_option fst (slots s' k) =
                (case map_of ?kvs k of Some v \<Rightarrow> Some v | None \<Rightarrow> map_option fst (slots ?bc0 k)))"
    by (rule put_all_fresh[OF box_inv_LruBox pre(1-4)])
  then obtain bc where bc: "put_all ?bc0 ?kvs = Inr bc"
      "order bc = take (cap ?bc0) (rev (map fst ?kvs) @ order ?bc0)"
    by blast
  have obc: "order bc = rev ?ids"
    using len(2) by (simp add: bc(2) init comp_def)
  define ctx where "ctx = concat (map (\<lambda>p. p @ [CHR 0x0A]) (take k (map fake_doc_text ?ids)))"
  have bc1: "build_context ids ?bc0 b = Inr (ctx, bc)"
    using build_context_resolve_all[OF b, of ids ?bc0] ra bc(1) by (simp add: k_def ctx_def)
  define r1 where "r1 = \<lparr>timings = \<lparr>cache_hit = False\<rparr>,
      answer = fake_generate q ctx (cheap_mode K), doc_ids_used = ids,
      retr_cache_after = ?rc2, block_cache_after = bc\<rparr>"
  have s1: "serve_one draws q ?rc0 ?bc0 K = Inr r1"
    using g0 p0 assms(2) bc1 by (simp add: serve_one_def b_def r1_def)
  have g2: "get ?rc2 q = Inr (Some ids, ?rc2)"
    using get_hit[of ?rc2 q ids 0] by (simp add: box_inv_def)
  obtain a rest where ids': "?ids = a # rest" "rest \<noteq> []"
    using len(1) by (cases ?ids; cases "tl ?ids") auto
  have "a \<noteq> last rest"
    using d ids' by auto
  then have "a \<noteq> fst (last ?kvs)"
    using ids' by (simp add: last_map)
  moreover have "a \<in> set (order bc)"
    by (simp add: obc ids'(1))
  ultimately obtain w where "slots bc a = Some (w, None)"
    using put_all_fresh_stale[OF box_inv_LruBox pre bc(1)] by blast
  then have "resolve bc a = Inl Invalid_iterator"
    by (rule resolve_stale)
  then have "resolve_all ?ids bc = Inl Invalid_iterator"
    by (simp add: ids'(1))
  then have bc2: "build_context ids bc b = Inl Invalid_iterator"
    using build_context_resolve_all[OF b, of ids bc] by (simp add: k_def)
  have s2: "serve_one draws q ?rc2 bc K = Inl Invalid_iterator"
    using g2 bc2 by (simp add: serve_one_def b_def)
  have "serve_twice draws q ?rc0 ?bc0 K = Inl Invalid_iterator"
    using s1 s2 by (simp add: serve_twice_def r1_def)
  with s1 s2 g2 show ?thesis
    by (intro exI[of _ r1]) (simp add: r1_def)
qed

text \<open>
  The theorem for the first request of \<^verbatim>\<open>main\<close> (capacities 512 and 4096, \<^verbatim>\<open>top_k\<close> 10, the
  normal mode), with ten numbers standing for the ten the generator draws.
\<close>

theorem serve_same_text_twice_faults_witness:
  "fake_retrieval (\<lambda>q i. [17, 4, 17, 250, 93, 4, 1999, 61, 120000, 8] ! i) ''what is rag latency?''
     (top_k \<lparr>top_k = 10, batch = 8, cheap_mode = False\<rparr>) =
     Inr [4, 8, 17, 61, 93, 250, 1999, 120000] \<and>
   (\<exists>r1. serve_one (\<lambda>q i. [17, 4, 17, 250, 93, 4, 1999, 61, 120000, 8] ! i) ''what is rag latency?''
            (LruBox 512) (LruBox 4096) \<lparr>top_k = 10, batch = 8, cheap_mode = False\<rparr> = Inr r1 \<and>
          cache_hit (timings r1) = False \<and>
          doc_ids_used r1 = [4, 8, 17, 61, 93, 250, 1999, 120000] \<and>
          serve_one (\<lambda>q i. [17, 4, 17, 250, 93, 4, 1999, 61, 120000, 8] ! i) ''what is rag latency?''
            (retr_cache_after r1) (block_cache_after r1) \<lparr>top_k = 10, batch = 8, cheap_mode = False\<rparr> =
            Inl Invalid_iterator) \<and>
   serve_twice (\<lambda>q i. [17, 4, 17, 250, 93, 4, 1999, 61, 120000, 8] ! i) ''what is rag latency?''
     (LruBox 512) (LruBox 4096) \<lparr>top_k = 10, batch = 8, cheap_mode = False\<rparr> = Inl Invalid_iterator"
proof -
  let ?d = "\<lambda>(q::string) i. [17, 4, 17, 250, 93, 4, 1999, 61, 120000, 8 :: int] ! i"
  let ?K = "\<lparr>top_k = 10, batch = 8, cheap_mode = False\<rparr>"
  let ?ids = "[4, 8, 17, 61, 93, 250, 1999, 120000 :: int]"
  have 1: "fake_retrieval ?d ''what is rag latency?'' (top_k ?K) = Inr ?ids"
    by (simp add: fake_retrieval_def upt_conv_Cons)
  have 2: "(1::nat) \<le> 512" "2 \<le> length ?ids" "length ?ids \<le> 4096"
    by simp_all
  from serve_same_text_twice_faults[OF 2(1) 1 2(2,3)] 1 show ?thesis
    by blast
qed

end
